theory Spec2Isabelle
  imports Main "HOL-Library.Word"
begin

section \<open>The call-rate limiter: \<^verbatim>\<open>src/utils/debounce.ts\<close>\<close>

text \<open>
  The source is one function that returns a closure:
  \<^verbatim>\<open>
  export const debounce = (func: (...args: any[]) => void, delay: number) => {
      let timerId: NodeJS.Timeout | null;
      return (...args: any[]) => {
          if (timerId) {
              clearTimeout(timerId);
          }
          timerId = setTimeout(() => {
              func(...args);
              timerId = null;
          }, delay);
      };
  };
  \<close>
  The closure, the host's timer table it talks to and what the action acts on are made
  explicit state. Times and delays are whole milliseconds (\<open>int\<close>).
\<close>

subsection \<open>The host: \<^verbatim>\<open>setTimeout\<close> and \<^verbatim>\<open>clearTimeout\<close>\<close>

text \<open>
  A timer of the host's table: the handle \<^verbatim>\<open>setTimeout\<close> returned for it, the delay it
  was asked for, the instant at which the host runs it, and the \<^verbatim>\<open>args\<close> its callback
  closed over. The callback itself is always the arrow function of line 9, so the
  captured arguments determine it.
\<close>

type_synonym handle = nat

record 'a timer =
  ident :: handle
  requested :: int
  due :: int
  captured :: 'a

text \<open>
  The host is not part of the repository. Its table holds the timers this limiter has set;
  \<open>hostDelay\<close> is the host's rule for turning the requested delay into the time it really
  waits (browsers wait \<open>max 0 d\<close>, Node waits 1 ms when \<open>d < 1\<close>), taken as a parameter.
  Handles are handed out in increasing order and never reused.
\<close>

record 'a host =
  hostDelay :: "int \<Rightarrow> int"
  clock :: int
  nextHandle :: handle
  pending :: "'a timer list"

definition setTimeout :: "'a \<Rightarrow> int \<Rightarrow> 'a host \<Rightarrow> handle \<times> 'a host" where
  "setTimeout args ms h =
     (nextHandle h,
      h\<lparr>nextHandle := Suc (nextHandle h),
        pending := pending h @
          [\<lparr>ident = nextHandle h, requested = ms,
            due = clock h + hostDelay h ms, captured = args\<rparr>]\<rparr>)"

definition clearTimeout :: "handle \<Rightarrow> 'a host \<Rightarrow> 'a host" where
  "clearTimeout i h = h\<lparr>pending := filter (\<lambda>t. ident t \<noteq> i) (pending h)\<rparr>"

definition freshHost :: "(int \<Rightarrow> int) \<Rightarrow> int \<Rightarrow> 'a host" where
  "freshHost rule t0 = \<lparr>hostDelay = rule, clock = t0, nextHandle = 1, pending = []\<rparr>"

subsection \<open>The closure that \<^verbatim>\<open>debounce\<close> returns\<close>

text \<open>
  The environment of the returned arrow function: the two parameters and the variable
  \<^verbatim>\<open>timerId\<close>. \<^verbatim>\<open>let timerId\<close> has no initialiser, so it starts as
  \<^verbatim>\<open>undefined\<close>; that and \<^verbatim>\<open>null\<close> are \<open>None\<close>, and a handle is always truthy.
  The action is any operation on a state of its own (\<open>'s\<close>, everything outside the
  limiter that it reads and writes): applied to its arguments and that state it returns
  (\<open>None\<close>) or throws a value (\<open>Some e\<close>), and leaves a new state. Besides that it can do
  one thing to the limiter: call the wrapper while it runs.
\<close>

record ('a, 's, 'e) closure =
  func :: "'a \<Rightarrow> 's \<Rightarrow> 'e option \<times> 's"
  delay :: int
  timerId :: "handle option"

definition debounce ::
  "('a \<Rightarrow> 's \<Rightarrow> 'e option \<times> 's) \<Rightarrow> int \<Rightarrow> ('a, 's, 'e) closure" where
  "debounce f d = \<lparr>func = f, delay = d, timerId = None\<rparr>"

text \<open>
  The world: the closure, the host, the state the action acts on, and three logs that an
  observer keeps: the calls of the wrapper (when, with what), the invocations of the
  action (when, with what) and the errors that escaped a timer callback into the host.
\<close>

record ('a, 's, 'e) world =
  env :: "('a, 's, 'e) closure"
  host :: "'a host"
  outside :: 's
  called :: "(int \<times> 'a) list"
  invoked :: "(int \<times> 'a) list"
  uncaught :: "'e list"

definition install :: "('a, 's, 'e) closure \<Rightarrow> 'a host \<Rightarrow> 's \<Rightarrow> ('a, 's, 'e) world" where
  "install c h s =
     \<lparr>env = c, host = h, outside = s, called = [], invoked = [], uncaught = []\<rparr>"

text \<open>
  Lines 4 to 13, the returned arrow function. It has no \<^verbatim>\<open>return\<close>. (The last update
  is the observer's log of calls.)
\<close>

definition wrapper :: "'a \<Rightarrow> ('a, 's, 'e) world \<Rightarrow> ('a, 's, 'e) world" where
  "wrapper args w =
     (let h1 = (case timerId (env w) of
                  Some i \<Rightarrow> clearTimeout i (host w)
                | None \<Rightarrow> host w);
          (i, h2) = setTimeout args (delay (env w)) h1
      in w\<lparr>env := (env w)\<lparr>timerId := Some i\<rparr>, host := h2,
           called := called w @ [(clock (host w), args)]\<rparr>)"

text \<open>
  Lines 9 to 12, the arrow function given to \<^verbatim>\<open>setTimeout\<close>: it applies the action to
  the captured arguments and then clears the slot. The action works on its own state;
  \<open>inner\<close> lists the arguments of the wrapper calls it makes while it runs, in order (for
  most actions there are none). When the action throws, the assignment of line 11 is not
  reached and the error leaves the callback; the result is the action's outcome.
\<close>

definition callback ::
  "'a \<Rightarrow> 'a list \<Rightarrow> ('a, 's, 'e) world \<Rightarrow> 'e option \<times> ('a, 's, 'e) world" where
  "callback args inner w =
     (let (r, s) = func (env w) args (outside w);
          w1 = w\<lparr>outside := s, invoked := invoked w @ [(clock (host w), args)]\<rparr>;
          w2 = fold wrapper inner w1
      in case r of
           Some e \<Rightarrow> (Some e, w2)
         | None \<Rightarrow> (None, w2\<lparr>env := (env w2)\<lparr>timerId := None\<rparr>\<rparr>))"

subsection \<open>Runs\<close>

text \<open>
  The host runs a timer: it takes the timer off its table, runs the callback, and keeps
  an error that escapes.
\<close>

definition takeOff :: "'a timer \<Rightarrow> ('a, 's, 'e) world \<Rightarrow> ('a, 's, 'e) world" where
  "takeOff t w =
     w\<lparr>host := (host w)\<lparr>pending :=
          filter (\<lambda>u. ident u \<noteq> ident t) (pending (host w))\<rparr>\<rparr>"

definition expire :: "'a timer \<Rightarrow> 'a list \<Rightarrow> ('a, 's, 'e) world \<Rightarrow> ('a, 's, 'e) world" where
  "expire t inner w =
     (let (r, w2) = callback (captured t) inner (takeOff t w)
      in case r of
           None \<Rightarrow> w2
         | Some e \<Rightarrow> w2\<lparr>uncaught := uncaught w2 @ [e]\<rparr>)"

text \<open>
  An untimed run is any list of events: a call of the wrapper from outside, the host
  running the timer with some handle (nothing happens when no such timer is pending)
  while the action makes the listed calls of the wrapper, time passing. No order between
  calls and expiries is imposed and a timer may run early or late, so what holds of every
  such run holds of every schedule of a host.
\<close>

datatype 'a event = Call 'a | Expire handle "'a list" | Tick nat

fun step :: "'a event \<Rightarrow> ('a, 's, 'e) world \<Rightarrow> ('a, 's, 'e) world" where
  "step (Call args) w = wrapper args w"
| "step (Expire i inner) w =
     (case find (\<lambda>t. ident t = i) (pending (host w)) of
        None \<Rightarrow> w
      | Some t \<Rightarrow> expire t inner w)"
| "step (Tick n) w = w\<lparr>host := (host w)\<lparr>clock := clock (host w) + int n\<rparr>\<rparr>"

definition exec :: "'a event list \<Rightarrow> ('a, 's, 'e) world \<Rightarrow> ('a, 's, 'e) world" where
  "exec es w = fold step es w"

text \<open>An event in which the action does not call the wrapper.\<close>

fun no_reentry :: "'a event \<Rightarrow> bool" where
  "no_reentry (Expire i inner) = (inner = [])"
| "no_reentry (Call args) = True"
| "no_reentry (Tick n) = True"

text \<open>
  A timed run is what an exact host does when the wrapper is called from outside at the
  given instants: every timer runs at the instant it is due, the earliest first (the
  older first among equals). When a timer is due at the very instant of a call the order
  is the host's; here the timer runs first. \<open>again\<close> gives, for the arguments the action
  is invoked with and the state it finds, the calls of the wrapper it makes while it runs.
  \<open>elapse\<close> moves the clock to the timer's instant and runs it; \<open>advance t\<close> runs the
  event loop up to instant \<open>t\<close>; \<open>settle\<close> runs it until the table is empty. An action
  that calls the wrapper every time it runs keeps the loop going for ever: the loops
  return \<open>None\<close> when they do not come to rest.
\<close>

fun earliest :: "'a timer list \<Rightarrow> 'a timer option" where
  "earliest [] = None"
| "earliest (t # ts) =
     (case earliest ts of
        None \<Rightarrow> Some t
      | Some u \<Rightarrow> if due u < due t then Some u else Some t)"

definition elapse ::
  "('a \<Rightarrow> 's \<Rightarrow> 'a list) \<Rightarrow> 'a timer \<Rightarrow> ('a, 's, 'e) world \<Rightarrow> ('a, 's, 'e) world" where
  "elapse again u w =
     expire u (again (captured u) (outside w))
       (w\<lparr>host := (host w)\<lparr>clock := max (clock (host w)) (due u)\<rparr>\<rparr>)"

partial_function (option) advance ::
  "('a \<Rightarrow> 's \<Rightarrow> 'a list) \<Rightarrow> int \<Rightarrow> ('a, 's, 'e) world \<Rightarrow> ('a, 's, 'e) world option" where
  "advance again t w =
     (case earliest (filter (\<lambda>u. due u \<le> t) (pending (host w))) of
        None \<Rightarrow> Some (w\<lparr>host := (host w)\<lparr>clock := max (clock (host w)) t\<rparr>\<rparr>)
      | Some u \<Rightarrow> advance again t (elapse again u w))"

partial_function (option) settle ::
  "('a \<Rightarrow> 's \<Rightarrow> 'a list) \<Rightarrow> ('a, 's, 'e) world \<Rightarrow> ('a, 's, 'e) world option" where
  "settle again w =
     (case earliest (pending (host w)) of
        None \<Rightarrow> Some w
      | Some u \<Rightarrow> settle again (elapse again u w))"

declare advance.simps [code]

declare settle.simps [code]

fun callsAt ::
  "('a \<Rightarrow> 's \<Rightarrow> 'a list) \<Rightarrow> (int \<times> 'a) list \<Rightarrow> ('a, 's, 'e) world \<Rightarrow> ('a, 's, 'e) world option" where
  "callsAt again [] w = Some w"
| "callsAt again (c # cs) w =
     (case advance again (fst c) w of
        None \<Rightarrow> None
      | Some v \<Rightarrow> callsAt again cs (wrapper (snd c) v))"

definition run ::
  "('a \<Rightarrow> 's \<Rightarrow> 'a list) \<Rightarrow> (int \<times> 'a) list \<Rightarrow> ('a, 's, 'e) world \<Rightarrow> ('a, 's, 'e) world option" where
  "run again cs w =
     (case callsAt again cs w of
        None \<Rightarrow> None
      | Some v \<Rightarrow> settle again v)"


text \<open>
  The action makes no call of the wrapper when it is applied to each of a list of
  arguments in turn.
\<close>

fun quiet ::
  "('a \<Rightarrow> 's \<Rightarrow> 'e option \<times> 's) \<Rightarrow> ('a \<Rightarrow> 's \<Rightarrow> 'a list) \<Rightarrow> 'a list \<Rightarrow> 's \<Rightarrow> bool" where
  "quiet f again [] s = True"
| "quiet f again (a # as) s = (again a s = [] \<and> quiet f again as (snd (f a s)))"

section \<open>The string exercises: \<^verbatim>\<open>problems/techProblems\<close>\<close>

text \<open>
  A JavaScript string is a sequence of 16-bit code units; \<^verbatim>\<open>inputStr[i]\<close> is the
  one-unit string at index \<open>i\<close>, modelled by the unit itself. The calls of
  \<^verbatim>\<open>console.log\<close> do not touch the result and are left out.
\<close>

type_synonym jsstring = "16 word list"

text \<open>
  \<^verbatim>\<open>
  export const firstDupElem = (inputStr: string) => {
      const keymaps = new Set();
      for (let i = 0; i < inputStr.length; i++) {
          if (keymaps.has(inputStr[i])) {
              return i;
          }
          keymaps.add(inputStr[i]);
      }
      return -1;
  }
  \<close>
  The loop, from index \<open>i\<close> with the set built so far.
\<close>

function firstDupElem_from :: "jsstring \<Rightarrow> nat \<Rightarrow> 16 word set \<Rightarrow> int" where
  "firstDupElem_from inputStr i keymaps =
     (if i < length inputStr then
        (if inputStr ! i \<in> keymaps then int i
         else firstDupElem_from inputStr (Suc i) (insert (inputStr ! i) keymaps))
      else - 1)"
  by pat_completeness auto
termination
  by (relation "measure (\<lambda>(s, i, k). length s - i)") auto

declare firstDupElem_from.simps [simp del]

definition firstDupElem :: "jsstring \<Rightarrow> int" where
  "firstDupElem inputStr = firstDupElem_from inputStr 0 {}"

text \<open>
  \<^verbatim>\<open>
  export const uniqChars = (str: string) => {
      let uniq: any = {};
      for (let s of str) {
          if (!uniq[s]) uniq[s] = 1;
          else return false;
      }
      return true;
  }
  \<close>
  \<^verbatim>\<open>for (let s of str)\<close> uses the string iterator of the language, which yields code
  points: a lead surrogate followed by a trail surrogate comes out as one two-unit string,
  every other unit as a one-unit string.
\<close>

definition isLeadSurrogate :: "16 word \<Rightarrow> bool" where
  "isLeadSurrogate c = (0xD800 \<le> c \<and> c \<le> 0xDBFF)"

definition isTrailSurrogate :: "16 word \<Rightarrow> bool" where
  "isTrailSurrogate c = (0xDC00 \<le> c \<and> c \<le> 0xDFFF)"

fun stringIterator :: "jsstring \<Rightarrow> jsstring list" where
  "stringIterator [] = []"
| "stringIterator [c] = [[c]]"
| "stringIterator (c # d # cs) =
     (if isLeadSurrogate c \<and> isTrailSurrogate d then [c, d] # stringIterator cs
      else [c] # stringIterator (d # cs))"

text \<open>
  \<^verbatim>\<open>uniq\<close> is an object used as a dictionary from the iterated strings; every value
  stored is 1, which is truthy, so \<^verbatim>\<open>!uniq[s]\<close> holds exactly when \<open>s\<close> has not been
  stored. (A key of one code point never names a property inherited from
  \<^verbatim>\<open>Object.prototype\<close>.)
\<close>

fun uniqChars_loop :: "jsstring list \<Rightarrow> (jsstring \<rightharpoonup> nat) \<Rightarrow> bool" where
  "uniqChars_loop [] uniq = True"
| "uniqChars_loop (s # rest) uniq =
     (if uniq s = None then uniqChars_loop rest (uniq(s \<mapsto> 1)) else False)"

definition uniqChars :: "jsstring \<Rightarrow> bool" where
  "uniqChars str = uniqChars_loop (stringIterator str) Map.empty"

section \<open>Notions used in the proofs\<close>

text \<open>Index \<open>i\<close> of \<open>s\<close> repeats an earlier one.\<close>

definition repeats_at :: "jsstring \<Rightarrow> nat \<Rightarrow> bool" where
  "repeats_at s i = (i < length s \<and> (\<exists>j<i. s ! j = s ! i))"

text \<open>No lead surrogate of \<open>s\<close> is directly followed by a trail surrogate.\<close>

definition noSurrogatePair :: "jsstring \<Rightarrow> bool" where
  "noSurrogatePair s =
     (\<forall>i. Suc i < length s \<longrightarrow> \<not> (isLeadSurrogate (s ! i) \<and> isTrailSurrogate (s ! Suc i)))"

text \<open>
  The limiter's slot and the host's table are in step: every pending handle has been
  handed out, and the table is empty or holds exactly the timer the slot names.
\<close>

definition in_step :: "('a, 's, 'e) world \<Rightarrow> bool" where
  "in_step w =
     ((\<forall>t \<in> set (pending (host w)). ident t < nextHandle (host w)) \<and>
      (pending (host w) = [] \<or>
       (\<exists>t. pending (host w) = [t] \<and> timerId (env w) = Some (ident t))))"

text \<open>
  Handles in use have been handed out, and no two pending timers share one.
\<close>

definition handed_out :: "('a, 's, 'e) world \<Rightarrow> bool" where
  "handed_out w =
     (distinct (map ident (pending (host w))) \<and>
      (\<forall>t \<in> set (pending (host w)). ident t < nextHandle (host w)) \<and>
      (\<forall>i. timerId (env w) = Some i \<longrightarrow> i < nextHandle (host w)))"

section \<open>Properties of the limiter\<close>

subsection \<open>What one wrapper call and one expiry do to each field\<close>

lemma wrapper_env:
  "env (wrapper args w) = (env w)\<lparr>timerId := Some (nextHandle (host w))\<rparr>"
  by (simp add: wrapper_def setTimeout_def clearTimeout_def Let_def split: option.splits)

lemma wrapper_pending:
  "pending (host (wrapper args w)) =
     (case timerId (env w) of
        Some i \<Rightarrow> filter (\<lambda>t. ident t \<noteq> i) (pending (host w))
      | None \<Rightarrow> pending (host w)) @
     [\<lparr>ident = nextHandle (host w), requested = delay (env w),
       due = clock (host w) + hostDelay (host w) (delay (env w)), captured = args\<rparr>]"
  by (simp add: wrapper_def setTimeout_def clearTimeout_def Let_def split: option.splits)

lemma wrapper_host_rest:
  "nextHandle (host (wrapper args w)) = Suc (nextHandle (host w))"
  "clock (host (wrapper args w)) = clock (host w)"
  "hostDelay (host (wrapper args w)) = hostDelay (host w)"
  by (simp_all add: wrapper_def setTimeout_def clearTimeout_def Let_def split: option.splits)

lemma wrapper_logs:
  "invoked (wrapper args w) = invoked w"
  "uncaught (wrapper args w) = uncaught w"
  "outside (wrapper args w) = outside w"
  "called (wrapper args w) = called w @ [(clock (host w), args)]"
  by (simp_all add: wrapper_def setTimeout_def clearTimeout_def Let_def
        split: option.splits prod.splits)

lemma wrapper_fixed:
  "delay (env (wrapper args w)) = delay (env w)"
  "func (env (wrapper args w)) = func (env w)"
  by (simp_all add: wrapper_env)

lemma wrapper_after_log:
  "wrapper args (w\<lparr>outside := s, invoked := l\<rparr>) = (wrapper args w)\<lparr>outside := s, invoked := l\<rparr>"
  by (simp add: wrapper_def setTimeout_def clearTimeout_def Let_def split: option.splits)

text \<open>The calls the action makes while it runs.\<close>

lemma calls_after_log:
  "fold wrapper inner (w\<lparr>outside := s, invoked := l\<rparr>) =
     (fold wrapper inner w)\<lparr>outside := s, invoked := l\<rparr>"
  by (induction inner arbitrary: w) (simp_all add: wrapper_after_log)

lemma calls_fixed:
  "delay (env (fold wrapper inner w)) = delay (env w)"
  "func (env (fold wrapper inner w)) = func (env w)"
  "hostDelay (host (fold wrapper inner w)) = hostDelay (host w)"
  "clock (host (fold wrapper inner w)) = clock (host w)"
  "invoked (fold wrapper inner w) = invoked w"
  "uncaught (fold wrapper inner w) = uncaught w"
  "outside (fold wrapper inner w) = outside w"
  by (induction inner arbitrary: w;
      simp add: wrapper_fixed wrapper_host_rest wrapper_logs)+

lemma calls_called:
  "called (fold wrapper inner w) = called w @ map (\<lambda>a. (clock (host w), a)) inner"
  by (induction inner arbitrary: w) (simp_all add: wrapper_logs wrapper_host_rest)

lemma takeOff_fields:
  "env (takeOff t w) = env w"
  "pending (host (takeOff t w)) = filter (\<lambda>u. ident u \<noteq> ident t) (pending (host w))"
  "nextHandle (host (takeOff t w)) = nextHandle (host w)"
  "clock (host (takeOff t w)) = clock (host w)"
  "hostDelay (host (takeOff t w)) = hostDelay (host w)"
  "invoked (takeOff t w) = invoked w"
  "uncaught (takeOff t w) = uncaught w"
  "outside (takeOff t w) = outside w"
  "called (takeOff t w) = called w"
  by (simp_all add: takeOff_def)

lemma callback_result:
  "fst (callback args inner w) = fst (func (env w) args (outside w))"
  by (simp add: callback_def Let_def split: option.splits prod.splits)

lemma callback_outside:
  "outside (snd (callback args inner w)) = snd (func (env w) args (outside w))"
  by (simp add: callback_def Let_def calls_fixed split: option.splits prod.splits)

lemma callback_invoked:
  "invoked (snd (callback args inner w)) = invoked w @ [(clock (host w), args)]"
  by (simp add: callback_def Let_def calls_fixed split: option.splits prod.splits)

lemma callback_uncaught: "uncaught (snd (callback args inner w)) = uncaught w"
  by (simp add: callback_def Let_def calls_fixed split: option.splits prod.splits)

lemma callback_called:
  "called (snd (callback args inner w)) = called w @ map (\<lambda>a. (clock (host w), a)) inner"
  by (simp add: callback_def Let_def calls_called split: option.splits prod.splits)

lemma callback_host: "host (snd (callback args inner w)) = host (fold wrapper inner w)"
  by (simp add: callback_def Let_def calls_after_log split: option.splits prod.splits)

lemma callback_env:
  "env (snd (callback args inner w)) =
     (case fst (func (env w) args (outside w)) of
        None \<Rightarrow> (env (fold wrapper inner w))\<lparr>timerId := None\<rparr>
      | Some e \<Rightarrow> env (fold wrapper inner w))"
  by (simp add: callback_def Let_def calls_after_log split: option.splits prod.splits)

lemma expire_as_callback:
  "expire t inner w =
     (snd (callback (captured t) inner (takeOff t w)))
       \<lparr>uncaught := uncaught w @
          (case fst (func (env w) (captured t) (outside w)) of None \<Rightarrow> [] | Some e \<Rightarrow> [e])\<rparr>"
  by (simp add: expire_def callback_def Let_def takeOff_fields calls_fixed
        split: option.splits prod.splits)

lemma expire_host: "host (expire t inner w) = host (fold wrapper inner (takeOff t w))"
  by (simp add: expire_as_callback callback_host)

lemma expire_env:
  "env (expire t inner w) =
     (case fst (func (env w) (captured t) (outside w)) of
        None \<Rightarrow> (env (fold wrapper inner (takeOff t w)))\<lparr>timerId := None\<rparr>
      | Some e \<Rightarrow> env (fold wrapper inner (takeOff t w)))"
  by (simp add: expire_as_callback callback_env takeOff_fields)

lemma expire_invoked:
  "invoked (expire t inner w) = invoked w @ [(clock (host w), captured t)]"
  by (simp add: expire_as_callback callback_invoked takeOff_fields)

lemma expire_outside:
  "outside (expire t inner w) = snd (func (env w) (captured t) (outside w))"
  by (simp add: expire_as_callback callback_outside takeOff_fields)

lemma expire_called:
  "called (expire t inner w) = called w @ map (\<lambda>a. (clock (host w), a)) inner"
  by (simp add: expire_as_callback callback_called takeOff_fields)

lemma expire_uncaught:
  "uncaught (expire t inner w) =
     uncaught w @
     (case fst (func (env w) (captured t) (outside w)) of None \<Rightarrow> [] | Some e \<Rightarrow> [e])"
  by (simp add: expire_as_callback)

lemma expire_fixed:
  "delay (env (expire t inner w)) = delay (env w)"
  "func (env (expire t inner w)) = func (env w)"
  "hostDelay (host (expire t inner w)) = hostDelay (host w)"
  "clock (host (expire t inner w)) = clock (host w)"
  by (simp_all add: expire_env expire_host calls_fixed takeOff_fields split: option.splits)

text \<open>When the action makes no call.\<close>

lemma expire_alone_pending:
  "pending (host (expire t [] w)) = filter (\<lambda>u. ident u \<noteq> ident t) (pending (host w))"
  by (simp add: expire_host takeOff_fields)

lemma expire_alone_nextHandle:
  "nextHandle (host (expire t [] w)) = nextHandle (host w)"
  by (simp add: expire_host takeOff_fields)

lemma expire_alone_env:
  "env (expire t [] w) =
     (case fst (func (env w) (captured t) (outside w)) of
        None \<Rightarrow> (env w)\<lparr>timerId := None\<rparr>
      | Some e \<Rightarrow> env w)"
  by (simp add: expire_env takeOff_fields split: option.splits)

lemma find_ident:
  "find (\<lambda>t. ident t = i) ts = Some t \<Longrightarrow> t \<in> set ts \<and> ident t = i"
  by (induction ts) (auto split: if_splits)

lemma exec_snoc: "exec (es @ [e]) w = step e (exec es w)"
  by (simp add: exec_def)

lemma exec_append: "exec (es @ es') w = exec es' (exec es w)"
  by (simp add: exec_def)

lemma install_fields:
  "delay (env (install (debounce f d) h s)) = d"
  "func (env (install (debounce f d) h s)) = f"
  "timerId (env (install (debounce f d) h s)) = None"
  "host (install c h s) = h"
  "outside (install c h s) = s"
  "called (install c h s) = []"
  "invoked (install c h s) = []"
  "uncaught (install c h s) = []"
  by (simp_all add: install_def debounce_def)

subsection \<open>What no run changes\<close>

lemma step_fixed:
  "delay (env (step e w)) = delay (env w)"
  "func (env (step e w)) = func (env w)"
  "hostDelay (host (step e w)) = hostDelay (host w)"
  by (cases e; simp add: wrapper_fixed wrapper_host_rest expire_fixed split: option.splits)+

lemma exec_fixed:
  "delay (env (exec es w)) = delay (env w)"
  "func (env (exec es w)) = func (env w)"
  "hostDelay (host (exec es w)) = hostDelay (host w)"
proof -
  show "delay (env (exec es w)) = delay (env w)"
    by (induction es rule: rev_induct) (simp_all add: exec_snoc step_fixed exec_def)
  show "func (env (exec es w)) = func (env w)"
    by (induction es rule: rev_induct) (simp_all add: exec_snoc step_fixed exec_def)
  show "hostDelay (host (exec es w)) = hostDelay (host w)"
    by (induction es rule: rev_induct) (simp_all add: exec_snoc step_fixed exec_def)
qed

lemma wrapper_requested:
  assumes "\<forall>t \<in> set (pending (host w)). requested t = delay (env w)"
  shows "\<forall>t \<in> set (pending (host (wrapper args w))). requested t = delay (env w)"
  using assms by (auto simp: wrapper_pending split: option.splits)

lemma calls_requested:
  assumes "\<forall>t \<in> set (pending (host w)). requested t = delay (env w)"
  shows "\<forall>t \<in> set (pending (host (fold wrapper inner w))). requested t = delay (env w)"
  using assms
proof (induction inner arbitrary: w)
  case Nil
  then show ?case by simp
next
  case (Cons a inner)
  have "\<forall>t \<in> set (pending (host (wrapper a w))). requested t = delay (env (wrapper a w))"
    using wrapper_requested[OF Cons.prems] by (simp add: wrapper_fixed)
  from Cons.IH[OF this] show ?case by (simp add: wrapper_fixed)
qed

lemma step_requested:
  assumes "\<forall>t \<in> set (pending (host w)). requested t = delay (env w)"
  shows "\<forall>t \<in> set (pending (host (step e w))). requested t = delay (env w)"
proof (cases e)
  case (Call args)
  then show ?thesis using wrapper_requested[OF assms] by simp
next
  case (Expire i inner)
  show ?thesis
  proof (cases "find (\<lambda>t. ident t = i) (pending (host w))")
    case None
    then show ?thesis using assms Expire by simp
  next
    case (Some t)
    have "\<forall>u \<in> set (pending (host (takeOff t w))). requested u = delay (env (takeOff t w))"
      using assms by (simp add: takeOff_fields)
    from calls_requested[OF this, of inner]
    have "\<forall>u \<in> set (pending (host (expire t inner w))). requested u = delay (env w)"
      by (simp add: expire_host takeOff_fields)
    then show ?thesis using Expire Some by simp
  qed
next
  case (Tick n)
  then show ?thesis using assms by simp
qed

lemma exec_requested:
  assumes "\<forall>t \<in> set (pending (host w)). requested t = delay (env w)"
  shows "\<forall>t \<in> set (pending (host (exec es w))). requested t = delay (env w)"
proof (induction es rule: rev_induct)
  case Nil
  then show ?case using assms by (simp add: exec_def)
next
  case (snoc e es)
  have "\<forall>t \<in> set (pending (host (step e (exec es w)))). requested t = delay (env (exec es w))"
    using snoc by (intro step_requested) (simp add: exec_fixed)
  then show ?case by (simp add: exec_snoc exec_fixed)
qed

subsection \<open>Handles are never handed out twice\<close>

lemma wrapper_handles:
  "\<forall>t \<in> set (pending (host (wrapper args w))).
      t \<in> set (pending (host w)) \<or> nextHandle (host w) \<le> ident t"
  by (auto simp: wrapper_pending split: option.splits)

lemma calls_handles:
  "nextHandle (host w) \<le> nextHandle (host (fold wrapper inner w)) \<and>
   (\<forall>t \<in> set (pending (host (fold wrapper inner w))).
      t \<in> set (pending (host w)) \<or> nextHandle (host w) \<le> ident t)"
proof (induction inner arbitrary: w)
  case Nil
  then show ?case by simp
next
  case (Cons a inner)
  let ?v = "wrapper a w"
  have up: "nextHandle (host w) \<le> nextHandle (host ?v)"
    by (simp add: wrapper_host_rest)
  show ?case
  proof (intro conjI ballI)
    show "nextHandle (host w) \<le> nextHandle (host (fold wrapper (a # inner) w))"
      using Cons.IH[of ?v] up by simp
  next
    fix t assume "t \<in> set (pending (host (fold wrapper (a # inner) w)))"
    then have "t \<in> set (pending (host ?v)) \<or> nextHandle (host ?v) \<le> ident t"
      using Cons.IH[of ?v] by simp
    then show "t \<in> set (pending (host w)) \<or> nextHandle (host w) \<le> ident t"
      using up wrapper_handles[of a w] by auto
  qed
qed

lemma step_handles:
  "nextHandle (host w) \<le> nextHandle (host (step e w)) \<and>
   (\<forall>t \<in> set (pending (host (step e w))).
      t \<in> set (pending (host w)) \<or> nextHandle (host w) \<le> ident t)"
proof (cases e)
  case (Call args)
  then show ?thesis using wrapper_handles[of args w] by (simp add: wrapper_host_rest)
next
  case (Expire i inner)
  show ?thesis
  proof (cases "find (\<lambda>t. ident t = i) (pending (host w))")
    case None
    then show ?thesis using Expire by simp
  next
    case (Some t)
    have "nextHandle (host w) \<le> nextHandle (host (expire t inner w)) \<and>
      (\<forall>u \<in> set (pending (host (expire t inner w))).
          u \<in> set (pending (host w)) \<or> nextHandle (host w) \<le> ident u)"
      using calls_handles[of "takeOff t w" inner]
      by (auto simp: expire_host takeOff_fields)
    then show ?thesis using Expire Some by simp
  qed
next
  case (Tick n)
  then show ?thesis by simp
qed

lemma exec_handles:
  "nextHandle (host w) \<le> nextHandle (host (exec es w)) \<and>
   (\<forall>t \<in> set (pending (host (exec es w))).
      t \<in> set (pending (host w)) \<or> nextHandle (host w) \<le> ident t)"
proof (induction es rule: rev_induct)
  case Nil
  then show ?case by (simp add: exec_def)
next
  case (snoc e es)
  let ?v = "exec es w"
  note here = step_handles[of ?v e]
  show ?case
  proof (intro conjI ballI)
    show "nextHandle (host w) \<le> nextHandle (host (exec (es @ [e]) w))"
      using snoc here by (simp add: exec_snoc)
  next
    fix t assume "t \<in> set (pending (host (exec (es @ [e]) w)))"
    then have "t \<in> set (pending (host ?v)) \<or> nextHandle (host ?v) \<le> ident t"
      using here by (simp add: exec_snoc)
    then show "t \<in> set (pending (host w)) \<or> nextHandle (host w) \<le> ident t"
      using snoc by auto
  qed
qed

lemma handed_out_install: "handed_out (install (debounce f d) (freshHost rule t0) s0)"
  by (simp add: handed_out_def install_def debounce_def freshHost_def)

lemma handed_out_wrapper:
  assumes "handed_out w"
  shows "handed_out (wrapper args w)"
proof -
  let ?kept = "case timerId (env w) of
                 Some i \<Rightarrow> filter (\<lambda>t. ident t \<noteq> i) (pending (host w))
               | None \<Rightarrow> pending (host w)"
  have sub: "set ?kept \<subseteq> set (pending (host w))"
    by (auto split: option.splits)
  have d: "distinct (map ident ?kept)"
    using assms by (auto simp: handed_out_def distinct_map_filter split: option.splits)
  have b: "\<forall>t \<in> set ?kept. ident t < nextHandle (host w)"
    using assms sub by (auto simp: handed_out_def)
  have p: "pending (host (wrapper args w)) = ?kept @
     [\<lparr>ident = nextHandle (host w), requested = delay (env w),
       due = clock (host w) + hostDelay (host w) (delay (env w)), captured = args\<rparr>]"
    by (rule wrapper_pending)
  have "distinct (map ident (pending (host (wrapper args w))))"
    unfolding p using d b by auto
  moreover have "\<forall>t \<in> set (pending (host (wrapper args w))).
      ident t < nextHandle (host (wrapper args w))"
    unfolding p using b by (auto simp: wrapper_host_rest less_Suc_eq)
  moreover have "\<forall>i. timerId (env (wrapper args w)) = Some i \<longrightarrow>
      i < nextHandle (host (wrapper args w))"
    by (simp add: wrapper_env wrapper_host_rest)
  ultimately show ?thesis by (simp add: handed_out_def)
qed

lemma handed_out_calls: "handed_out w \<Longrightarrow> handed_out (fold wrapper inner w)"
  by (induction inner arbitrary: w) (simp_all add: handed_out_wrapper)

lemma handed_out_takeOff: "handed_out w \<Longrightarrow> handed_out (takeOff t w)"
  by (auto simp: handed_out_def takeOff_fields distinct_map_filter)

lemma handed_out_expire:
  assumes "handed_out w"
  shows "handed_out (expire t inner w)"
proof -
  have "handed_out (fold wrapper inner (takeOff t w))"
    using assms by (intro handed_out_calls handed_out_takeOff)
  then show ?thesis
    by (auto simp: handed_out_def expire_host expire_env split: option.splits)
qed

lemma handed_out_step: "handed_out w \<Longrightarrow> handed_out (step e w)"
proof (cases e)
  case (Call args)
  assume "handed_out w"
  then show ?thesis using Call by (simp add: handed_out_wrapper)
next
  case (Expire i inner)
  assume a: "handed_out w"
  show ?thesis
  proof (cases "find (\<lambda>t. ident t = i) (pending (host w))")
    case None
    then have "step e w = w" using Expire by simp
    then show ?thesis using a by simp
  next
    case (Some t)
    have "handed_out (expire t inner w)" using a by (rule handed_out_expire)
    then show ?thesis using Expire Some by simp
  qed
next
  case (Tick n)
  assume "handed_out w"
  then show ?thesis using Tick by (simp add: handed_out_def)
qed

lemma handed_out_exec: "handed_out w \<Longrightarrow> handed_out (exec es w)"
  unfolding exec_def by (induction es arbitrary: w) (simp_all add: handed_out_step)

lemma find_pending:
  assumes "handed_out w" "t \<in> set (pending (host w))"
  shows "find (\<lambda>u. ident u = ident t) (pending (host w)) = Some t"
proof -
  have d: "distinct (map ident (pending (host w)))"
    using assms(1) by (simp add: handed_out_def)
  obtain u where u: "find (\<lambda>u. ident u = ident t) (pending (host w)) = Some u"
    using assms(2) by (cases "find (\<lambda>u. ident u = ident t) (pending (host w))")
      (auto simp: find_None_iff)
  then have "u \<in> set (pending (host w))" "ident u = ident t"
    by (blast dest: find_ident)+
  then have "u = t"
    using d assms(2) by (meson distinct_map inj_onD)
  then show ?thesis using u by simp
qed

lemma expire_absent:
  assumes "\<forall>t \<in> set (pending (host w)). ident t \<noteq> i"
  shows "step (Expire i inner) w = w"
proof -
  have "find (\<lambda>t. ident t = i) (pending (host w)) = None"
    using assms by (simp add: find_None_iff)
  then show ?thesis by simp
qed

lemma expire_present:
  assumes "handed_out w" "t \<in> set (pending (host w))"
  shows "step (Expire (ident t) inner) w = expire t inner w"
  using find_pending[OF assms] by simp

subsection \<open>Without re-entry, the slot and the host's table stay in step\<close>

lemma in_step_install: "in_step (install (debounce f d) (freshHost rule t0) s0)"
  by (simp add: in_step_def install_def debounce_def freshHost_def)

lemma in_step_wrapper_pending:
  assumes "in_step w"
  shows "pending (host (wrapper args w)) =
     [\<lparr>ident = nextHandle (host w), requested = delay (env w),
       due = clock (host w) + hostDelay (host w) (delay (env w)), captured = args\<rparr>]"
proof (cases "pending (host w) = []")
  case True
  then show ?thesis by (simp add: wrapper_pending split: option.splits)
next
  case False
  with assms obtain t where "pending (host w) = [t]" "timerId (env w) = Some (ident t)"
    by (auto simp: in_step_def)
  then show ?thesis by (simp add: wrapper_pending)
qed

lemma in_step_wrapper: "in_step w \<Longrightarrow> in_step (wrapper args w)"
  unfolding in_step_def[of "wrapper args w"]
  by (simp add: in_step_wrapper_pending wrapper_host_rest wrapper_env)

lemma in_step_expire:
  assumes "in_step w" "t \<in> set (pending (host w))"
  shows "in_step (expire t [] w)" "pending (host (expire t [] w)) = []"
proof -
  from assms have "pending (host w) = [t]" by (auto simp: in_step_def)
  then show "pending (host (expire t [] w)) = []" by (simp add: expire_alone_pending)
  then show "in_step (expire t [] w)" by (simp add: in_step_def)
qed

lemma in_step_step:
  assumes "in_step w" "no_reentry e"
  shows "in_step (step e w)"
proof (cases e)
  case (Call args)
  then show ?thesis using assms(1) by (simp add: in_step_wrapper)
next
  case (Expire i inner)
  then have inner: "inner = []" using assms(2) by simp
  show ?thesis
  proof (cases "find (\<lambda>t. ident t = i) (pending (host w))")
    case None
    then have "step e w = w" using Expire by simp
    then show ?thesis using assms(1) by simp
  next
    case (Some t)
    then have "t \<in> set (pending (host w))" by (blast dest: find_ident)
    then have "in_step (expire t [] w)" using assms(1) by (simp add: in_step_expire)
    then show ?thesis using Expire Some inner by simp
  qed
next
  case (Tick n)
  then show ?thesis using assms(1) by (simp add: in_step_def)
qed

lemma in_step_exec:
  assumes "in_step w" "\<forall>e \<in> set es. no_reentry e"
  shows "in_step (exec es w)"
  using assms(2)
proof (induction es rule: rev_induct)
  case Nil
  then show ?case using assms(1) by (simp add: exec_def)
next
  case (snoc e es)
  then have "in_step (exec es w)" "no_reentry e" by simp_all
  then show ?case by (simp add: exec_snoc in_step_step)
qed

lemma in_step_most_one: "in_step w \<Longrightarrow> length (pending (host w)) \<le> 1"
  by (auto simp: in_step_def)

text \<open>
  C2, as amended. In every run in which the action never calls the wrapper while it is
  being invoked, started from a freshly built limiter, the host holds at most one pending
  timer of the limiter after every event. The run is otherwise arbitrary (calls, expiries
  and passing time in any order), so every call and every firing keeps it so.
\<close>

theorem at_most_one_pending:
  assumes "\<forall>e \<in> set es. no_reentry e"
  shows "length (pending (host (exec es (install (debounce f d) (freshHost rule t0) s0)))) \<le> 1"
  using assms by (intro in_step_most_one in_step_exec in_step_install)

theorem at_most_one_pending_witness:
  "length (pending (host (exec [Call ''a'', Tick 30, Call ''b'', Tick 100, Expire 2 [], Call ''c'']
      (install (debounce (\<lambda>(a :: string) (s :: string list). (None :: unit option, s @ [a])) 100)
         (freshHost (\<lambda>d. d) 0) [])))) \<le> 1"
  using at_most_one_pending[where es = "[Call ''a'', Tick 30, Call ''b'', Tick 100, Expire 2 [], Call ''c'']"
      and f = "\<lambda>(a :: string) (s :: string list). (None :: unit option, s @ [a])"
      and ?s0.0 = "[]" and d = 100 and rule = "\<lambda>d. d" and ?t0.0 = 0]
  by simp

text \<open>
  As first stated (every reachable state), C2 fails. The action is invoked for the call
  with \<open>x\<close> and, while it runs, calls the wrapper with \<open>r\<close>; line 11 then clears the
  slot that had just been set to the new timer. The next call finds the slot empty and
  cancels nothing: two timers are pending.
\<close>

theorem two_pending_after_reentry:
  "length (pending (host (exec [Call ''x'', Tick 100, Expire 1 [''r''], Tick 50, Call ''y'']
      (install (debounce (\<lambda>(a :: string) (s :: string list). (None :: unit option, s @ [a])) 100)
         (freshHost (\<lambda>d. d) 0) [])))) = 2"
  by (simp add: exec_def expire_def callback_def takeOff_def wrapper_def setTimeout_def
        clearTimeout_def install_def debounce_def freshHost_def Let_def)

subsection \<open>Calls and firings in every state a run can reach\<close>

text \<open>
  C3, as amended. In every state a run can reach, a call of the wrapper does exactly this:
  the timer the slot names, if any, leaves the table and never runs in any later state;
  a new timer is put last in the table, asked for exactly \<open>delay\<close>, due \<open>delay\<close> (as the
  host counts it) from now, holding the arguments of this call; and the slot names it.
  This holds whether or not a timer was pending. When the action has never called the
  wrapper while being invoked, the slot names every pending timer, so the new timer is
  then the only one pending.
\<close>

theorem wrapper_cancels_then_schedules:
  assumes "w = exec es (install (debounce f d) (freshHost rule t0) s0)"
  shows "pending (host (wrapper args w)) =
           filter (\<lambda>t. Some (ident t) \<noteq> timerId (env w)) (pending (host w)) @
           [\<lparr>ident = nextHandle (host w), requested = d,
             due = clock (host w) + rule d, captured = args\<rparr>]
       \<and> timerId (env (wrapper args w)) = Some (nextHandle (host w))
       \<and> (\<forall>i. timerId (env w) = Some i \<longrightarrow>
            (\<forall>es' inner. step (Expire i inner) (exec es' (wrapper args w))
                          = exec es' (wrapper args w)))
       \<and> ((\<forall>e \<in> set es. no_reentry e) \<longrightarrow>
            pending (host (wrapper args w)) =
              [\<lparr>ident = nextHandle (host w), requested = d,
                due = clock (host w) + rule d, captured = args\<rparr>])"
proof (intro conjI allI impI)
  have ho: "handed_out w"
    unfolding assms by (intro handed_out_exec handed_out_install)
  have d: "delay (env w) = d" and r: "hostDelay (host w) = rule"
    unfolding assms by (simp_all add: exec_fixed install_fields freshHost_def)
  show "pending (host (wrapper args w)) =
           filter (\<lambda>t. Some (ident t) \<noteq> timerId (env w)) (pending (host w)) @
           [\<lparr>ident = nextHandle (host w), requested = d,
             due = clock (host w) + rule d, captured = args\<rparr>]"
    by (cases "timerId (env w)") (simp_all add: wrapper_pending d r)
  show "timerId (env (wrapper args w)) = Some (nextHandle (host w))"
    by (simp add: wrapper_env)
  {
    fix i es' inner
    assume slot: "timerId (env w) = Some i"
    then have old: "i < nextHandle (host w)"
      using ho by (simp add: handed_out_def)
    have gone: "\<forall>u \<in> set (pending (host (wrapper args w))). ident u \<noteq> i"
      using slot old by (auto simp: wrapper_pending)
    have "\<forall>u \<in> set (pending (host (exec es' (wrapper args w)))). ident u \<noteq> i"
    proof
      fix u assume "u \<in> set (pending (host (exec es' (wrapper args w))))"
      then have "u \<in> set (pending (host (wrapper args w)))
          \<or> nextHandle (host (wrapper args w)) \<le> ident u"
        using exec_handles[of "wrapper args w" es'] by blast
      then show "ident u \<noteq> i"
        using gone old by (auto simp: wrapper_host_rest)
    qed
    then show "step (Expire i inner) (exec es' (wrapper args w)) = exec es' (wrapper args w)"
      by (rule expire_absent)
  }
  {
    assume "\<forall>e \<in> set es. no_reentry e"
    then have "in_step w"
      unfolding assms by (intro in_step_exec in_step_install)
    from in_step_wrapper_pending[OF this, of args]
    show "pending (host (wrapper args w)) =
              [\<lparr>ident = nextHandle (host w), requested = d,
                due = clock (host w) + rule d, captured = args\<rparr>]"
      by (simp add: d r)
  }
qed

theorem wrapper_cancels_then_schedules_witness:
  "pending (host (wrapper ''b''
      (exec [Call ''a'', Tick 30]
         (install (debounce (\<lambda>(a :: string) (s :: string list). (None :: unit option, s @ [a])) 100)
         (freshHost (\<lambda>d. d) 0) []))))
     = [\<lparr>ident = 2, requested = 100, due = 130, captured = ''b''\<rparr>]
   \<and> step (Expire 1 []) (exec [Tick 100]
        (wrapper ''b'' (exec [Call ''a'', Tick 30]
           (install (debounce (\<lambda>(a :: string) (s :: string list). (None :: unit option, s @ [a])) 100)
         (freshHost (\<lambda>d. d) 0) []))))
     = exec [Tick 100]
        (wrapper ''b'' (exec [Call ''a'', Tick 30]
           (install (debounce (\<lambda>(a :: string) (s :: string list). (None :: unit option, s @ [a])) 100)
         (freshHost (\<lambda>d. d) 0) [])))"
proof -
  let ?w = "exec [Call ''a'', Tick 30]
              (install (debounce (\<lambda>(a :: string) (s :: string list). (None :: unit option, s @ [a])) 100)
         (freshHost (\<lambda>d. d) 0) [])"
  have nh: "nextHandle (host ?w) = 2" and ck: "clock (host ?w) = 30"
    and slot: "timerId (env ?w) = Some 1"
    by (simp_all add: exec_def wrapper_def setTimeout_def clearTimeout_def install_def
          debounce_def freshHost_def Let_def)
  have quiet: "\<forall>e \<in> set [Call ''a'', Tick 30]. no_reentry e" by simp
  note inst = wrapper_cancels_then_schedules[OF refl, where es = "[Call ''a'', Tick 30]"
      and f = "\<lambda>(a :: string) (s :: string list). (None :: unit option, s @ [a])"
      and ?s0.0 = "[]" and d = 100 and rule = "\<lambda>d. d" and ?t0.0 = 0
      and args = "''b''"]
  from inst quiet have "pending (host (wrapper ''b'' ?w)) =
      [\<lparr>ident = nextHandle (host ?w), requested = 100,
        due = clock (host ?w) + 100, captured = ''b''\<rparr>]"
    by blast
  moreover from inst slot
  have "step (Expire 1 []) (exec [Tick 100] (wrapper ''b'' ?w)) = exec [Tick 100] (wrapper ''b'' ?w)"
    by blast
  ultimately show ?thesis by (simp add: nh ck)
qed

text \<open>
  As first stated (a pending timer, if one exists, is cancelled and never fires), C3 fails
  in the state that re-entry leaves: the timer set from inside the action is pending while
  the slot is empty, the next call does not cancel it, and it fires with its arguments.
\<close>

theorem pending_timer_survives_call_after_reentry:
  "pending (host (exec [Call ''x'', Tick 100, Expire 1 [''r''], Tick 50]
      (install (debounce (\<lambda>(a :: string) (s :: string list). (None :: unit option, s @ [a])) 100)
         (freshHost (\<lambda>d. d) 0) [])))
     = [\<lparr>ident = 2, requested = 100, due = 200, captured = ''r''\<rparr>]
   \<and> pending (host (wrapper ''y'' (exec [Call ''x'', Tick 100, Expire 1 [''r''], Tick 50]
      (install (debounce (\<lambda>(a :: string) (s :: string list). (None :: unit option, s @ [a])) 100)
         (freshHost (\<lambda>d. d) 0) []))))
     = [\<lparr>ident = 2, requested = 100, due = 200, captured = ''r''\<rparr>,
        \<lparr>ident = 3, requested = 100, due = 250, captured = ''y''\<rparr>]
   \<and> invoked (exec [Tick 50, Expire 2 []]
        (wrapper ''y'' (exec [Call ''x'', Tick 100, Expire 1 [''r''], Tick 50]
          (install (debounce (\<lambda>(a :: string) (s :: string list). (None :: unit option, s @ [a])) 100)
         (freshHost (\<lambda>d. d) 0) []))))
     = [(100, ''x''), (200, ''r'')]"
  by (simp add: exec_def expire_def callback_def takeOff_def wrapper_def setTimeout_def
        clearTimeout_def install_def debounce_def freshHost_def Let_def)

text \<open>
  C4, as amended. In every state a run can reach, when the host runs a pending timer \<open>t\<close>
  the action \<open>f\<close> is applied to the captured arguments and to the state outside the
  limiter as it then is, and \<open>t\<close> is no longer pending. When the action returns, the slot
  is cleared. When the action throws, line 11 is not reached: the slot is as the action
  left it, so it still names \<open>t\<close> when the action has made no call of the wrapper in this
  firing or before. In both cases the next call of the wrapper schedules a new timer,
  which the slot names. When the action has made no call of the wrapper, in this firing
  or before, no timer is left pending after the firing and the new one is the only one
  pending after the call.
\<close>

theorem firing_invokes_then_clears:
  assumes "w = exec es (install (debounce f d) (freshHost rule t0) s0)"
    and "t \<in> set (pending (host w))"
    and "w' = step (Expire (ident t) inner) w"
  shows "invoked w' = invoked w @ [(clock (host w), captured t)]
       \<and> outside w' = snd (f (captured t) (outside w))
       \<and> (fst (f (captured t) (outside w)) = None \<longrightarrow> timerId (env w') = None)
       \<and> (fst (f (captured t) (outside w)) \<noteq> None \<and> inner = [] \<longrightarrow>
            timerId (env w') = timerId (env w))
       \<and> (\<forall>u \<in> set (pending (host w')). ident u \<noteq> ident t)
       \<and> timerId (env (wrapper args w')) = Some (nextHandle (host w'))
       \<and> last (pending (host (wrapper args w'))) =
           \<lparr>ident = nextHandle (host w'), requested = d,
            due = clock (host w) + rule d, captured = args\<rparr>
       \<and> ((\<forall>e \<in> set es. no_reentry e) \<and> inner = [] \<longrightarrow>
            (fst (f (captured t) (outside w)) \<noteq> None \<longrightarrow> timerId (env w') = Some (ident t)) \<and>
            pending (host w') = [] \<and>
            pending (host (wrapper args w')) =
              [\<lparr>ident = nextHandle (host w), requested = d,
                due = clock (host w) + rule d, captured = args\<rparr>])"
proof (intro conjI impI ballI)
  have ho: "handed_out w"
    unfolding assms(1) by (intro handed_out_exec handed_out_install)
  have fx: "delay (env w) = d" "hostDelay (host w) = rule" "func (env w) = f"
    unfolding assms(1) by (simp_all add: exec_fixed install_fields freshHost_def)
  have w': "w' = expire t inner w"
    unfolding assms(3) using ho assms(2) by (rule expire_present)
  have fx': "delay (env w') = d" "hostDelay (host w') = rule" "clock (host w') = clock (host w)"
    by (simp_all add: w' expire_fixed fx)
  show "invoked w' = invoked w @ [(clock (host w), captured t)]"
    by (simp add: w' expire_invoked)
  show "outside w' = snd (f (captured t) (outside w))"
    by (simp add: w' expire_outside fx)
  show "timerId (env w') = None" if "fst (f (captured t) (outside w)) = None"
    using that by (simp add: w' expire_env fx)
  show "timerId (env w') = timerId (env w)"
    if "fst (f (captured t) (outside w)) \<noteq> None \<and> inner = []"
    using that by (auto simp: w' expire_alone_env fx)
  show "ident u \<noteq> ident t" if "u \<in> set (pending (host w'))" for u
  proof -
    have old: "ident t < nextHandle (host w)"
      using ho assms(2) by (auto simp: handed_out_def)
    have "u \<in> set (pending (host (fold wrapper inner (takeOff t w))))"
      using that by (simp add: w' expire_host)
    then have "u \<in> set (pending (host (takeOff t w)))
        \<or> nextHandle (host (takeOff t w)) \<le> ident u"
      using calls_handles[of "takeOff t w" inner] by blast
    then show ?thesis using old by (auto simp: takeOff_fields)
  qed
  show "timerId (env (wrapper args w')) = Some (nextHandle (host w'))"
    by (simp add: wrapper_env)
  show "last (pending (host (wrapper args w'))) =
           \<lparr>ident = nextHandle (host w'), requested = d,
            due = clock (host w) + rule d, captured = args\<rparr>"
    by (simp add: wrapper_pending fx')
  {
    assume q: "(\<forall>e \<in> set es. no_reentry e) \<and> inner = []"
    then have inv: "in_step w"
      unfolding assms(1) by (intro in_step_exec in_step_install) simp
    have w'': "w' = expire t [] w" using q by (simp add: w')
    have after: "in_step w'" "pending (host w') = []"
      unfolding w'' using inv assms(2) by (rule in_step_expire)+
    show "pending (host w') = []" by fact
    show "pending (host (wrapper args w')) =
              [\<lparr>ident = nextHandle (host w), requested = d,
                due = clock (host w) + rule d, captured = args\<rparr>]"
      using in_step_wrapper_pending[OF after(1), of args] fx'
      by (simp add: w'' expire_alone_nextHandle)
    have slot: "timerId (env w) = Some (ident t)"
      using inv assms(2) by (auto simp: in_step_def)
    show "timerId (env w') = Some (ident t)" if "fst (f (captured t) (outside w)) \<noteq> None"
      using that slot by (auto simp: w'' expire_alone_env fx)
  }
qed

theorem firing_invokes_then_clears_witness:
  "invoked (step (Expire 1 [])
      (exec [Call ''x'', Tick 100]
         (install (debounce (\<lambda>(a :: string) (s :: string list). (None :: unit option, s @ [a])) 100)
         (freshHost (\<lambda>d. d) 0) [])))
     = [(100, ''x'')]
   \<and> outside (step (Expire 1 [])
      (exec [Call ''x'', Tick 100]
         (install (debounce (\<lambda>(a :: string) (s :: string list). (None :: unit option, s @ [a])) 100)
         (freshHost (\<lambda>d. d) 0) [])))
     = [''x'']
   \<and> timerId (env (step (Expire 1 [])
      (exec [Call ''x'', Tick 100]
         (install (debounce (\<lambda>(a :: string) (s :: string list). (None :: unit option, s @ [a])) 100)
         (freshHost (\<lambda>d. d) 0) []))))
     = None
   \<and> pending (host (wrapper ''y'' (step (Expire 1 [])
      (exec [Call ''x'', Tick 100]
         (install (debounce (\<lambda>(a :: string) (s :: string list). (None :: unit option, s @ [a])) 100)
         (freshHost (\<lambda>d. d) 0) [])))))
     = [\<lparr>ident = 2, requested = 100, due = 200, captured = ''y''\<rparr>]"
proof -
  let ?w = "exec [Call ''x'', Tick 100]
              (install (debounce (\<lambda>(a :: string) (s :: string list). (None :: unit option, s @ [a])) 100)
         (freshHost (\<lambda>d. d) 0) [])"
  let ?t = "\<lparr>ident = 1, requested = 100, due = 100, captured = ''x''\<rparr>"
  have before: "pending (host ?w) = [?t]"
    and nh: "nextHandle (host ?w) = 2" and ck: "clock (host ?w) = 100"
    and iv: "invoked ?w = []" and os: "outside ?w = []"
    by (simp_all add: exec_def wrapper_def setTimeout_def clearTimeout_def install_def
          debounce_def freshHost_def Let_def)
  have mem: "?t \<in> set (pending (host ?w))" by (simp add: before)
  have quiet: "(\<forall>e \<in> set [Call ''x'', Tick 100 :: string event]. no_reentry e)
      \<and> ([] :: string list) = []"
    by simp
  note inst = firing_invokes_then_clears[OF refl mem refl, where inner = "[]" and args = "''y''"]
  from inst have "invoked (step (Expire (ident ?t) []) ?w) = invoked ?w @ [(clock (host ?w), captured ?t)]"
    by blast
  moreover from inst have "outside (step (Expire (ident ?t) []) ?w) = [''x'']"
    by (simp add: os)
  moreover from inst have "timerId (env (step (Expire (ident ?t) []) ?w)) = None"
    by simp
  moreover from inst quiet
  have "pending (host (wrapper ''y'' (step (Expire (ident ?t) []) ?w))) =
      [\<lparr>ident = nextHandle (host ?w), requested = 100,
        due = clock (host ?w) + 100, captured = ''y''\<rparr>]"
    by blast
  ultimately show ?thesis by (simp add: nh ck iv)
qed

text \<open>
  As first stated (the firing invokes the action and then clears the slot), C4 fails for
  an action that throws. The wrapper is called with \<open>x\<close>, the timer runs, the action is
  applied to \<open>x\<close> and throws: no timer is pending, yet the slot still names timer 1, so
  the next call takes the branch of line 5 and cancels a timer that has already run.
\<close>

theorem slot_not_cleared_when_action_throws:
  "timerId (env (exec [Call ''x'', Tick 100, Expire 1 []]
      (install (debounce (\<lambda>(a :: string) (s :: string list). (Some ''boom'', s @ [a])) 100)
         (freshHost (\<lambda>d. d) 0) [])))
     = Some 1
   \<and> outside (exec [Call ''x'', Tick 100, Expire 1 []]
      (install (debounce (\<lambda>(a :: string) (s :: string list). (Some ''boom'', s @ [a])) 100)
         (freshHost (\<lambda>d. d) 0) []))
     = [''x'']
   \<and> pending (host (exec [Call ''x'', Tick 100, Expire 1 []]
      (install (debounce (\<lambda>(a :: string) (s :: string list). (Some ''boom'', s @ [a])) 100)
         (freshHost (\<lambda>d. d) 0) [])))
     = []"
  by (simp add: exec_def expire_def callback_def takeOff_def wrapper_def setTimeout_def
        clearTimeout_def install_def debounce_def freshHost_def Let_def)

text \<open>
  C6. A call of the wrapper does not invoke the action: the log of invocations, the
  errors seen by the host and the state outside the limiter, which only the action
  changes, are as before the call, and no time passes. The wrapper has no result besides
  the new state (the arrow function has no \<^verbatim>\<open>return\<close>).
\<close>

theorem wrapper_returns_without_invoking:
  "invoked (wrapper args w) = invoked w
   \<and> uncaught (wrapper args w) = uncaught w
   \<and> clock (host (wrapper args w)) = clock (host w)
   \<and> outside (wrapper args w) = outside w"
  by (simp add: wrapper_logs wrapper_host_rest)

text \<open>
  C7. In every state a run can reach, when the host runs a pending timer \<open>t\<close> of the
  limiter built from \<open>f\<close>, the outcome of the timer callback is the outcome of \<open>f\<close> on the
  captured arguments and the state outside the limiter: an error the action throws
  leaves the callback as it is and is the one error the host sees for this firing, and
  the host sees none when the action returns. What the action did to the state outside
  stays done. After an error the slot is as the action left it (line 11 is skipped), so
  unchanged when the action made no call of the wrapper.
\<close>

theorem action_error_propagates:
  assumes "w = exec es (install (debounce f d) (freshHost rule t0) s0)"
    and "t \<in> set (pending (host w))"
  shows "fst (callback (captured t) inner (takeOff t w)) = fst (f (captured t) (outside w))
       \<and> uncaught (step (Expire (ident t) inner) w) =
           uncaught w @
           (case fst (f (captured t) (outside w)) of None \<Rightarrow> [] | Some e \<Rightarrow> [e])
       \<and> outside (step (Expire (ident t) inner) w) = snd (f (captured t) (outside w))
       \<and> (fst (f (captured t) (outside w)) \<noteq> None \<and> inner = [] \<longrightarrow>
            timerId (env (step (Expire (ident t) inner) w)) = timerId (env w))"
proof -
  have ho: "handed_out w"
    unfolding assms(1) by (intro handed_out_exec handed_out_install)
  have fx: "func (env w) = f"
    unfolding assms(1) by (simp add: exec_fixed install_fields)
  have st: "step (Expire (ident t) inner) w = expire t inner w"
    using ho assms(2) by (rule expire_present)
  show ?thesis
    unfolding st
    by (auto simp: callback_result expire_uncaught expire_outside expire_alone_env
          takeOff_fields fx)
qed

theorem action_error_propagates_witness:
  "uncaught (step (Expire 1 [])
      (exec [Call ''x'', Tick 100]
        (install (debounce (\<lambda>(a :: string) (s :: string list). (Some ''boom'', s @ [a])) 100)
           (freshHost (\<lambda>d. d) 0) [])))
     = [''boom'']
   \<and> outside (step (Expire 1 [])
      (exec [Call ''x'', Tick 100]
        (install (debounce (\<lambda>(a :: string) (s :: string list). (Some ''boom'', s @ [a])) 100)
           (freshHost (\<lambda>d. d) 0) [])))
     = [''x'']
   \<and> timerId (env (step (Expire 1 [])
      (exec [Call ''x'', Tick 100]
        (install (debounce (\<lambda>(a :: string) (s :: string list). (Some ''boom'', s @ [a])) 100)
           (freshHost (\<lambda>d. d) 0) []))))
     = Some 1"
proof -
  let ?w = "exec [Call ''x'', Tick 100]
        (install (debounce (\<lambda>(a :: string) (s :: string list). (Some ''boom'', s @ [a])) 100)
           (freshHost (\<lambda>d. d) 0) [])"
  let ?t = "\<lparr>ident = 1, requested = 100, due = 100, captured = ''x''\<rparr>"
  have before: "pending (host ?w) = [?t]"
    and uc: "uncaught ?w = []" and os: "outside ?w = []" and slot: "timerId (env ?w) = Some 1"
    by (simp_all add: exec_def wrapper_def setTimeout_def clearTimeout_def install_def
          debounce_def freshHost_def Let_def)
  have mem: "?t \<in> set (pending (host ?w))" by (simp add: before)
  from action_error_propagates[OF refl mem, where inner = "[]"]
  show ?thesis by (simp add: uc os slot)
qed

text \<open>
  C8. \<^verbatim>\<open>debounce\<close> accepts every delay as it is, a negative one included: the closure
  holds exactly the value given, no run changes it, and every timer the wrapper sets was
  asked for exactly that value.
\<close>

theorem delay_unchecked_and_fixed:
  "delay (debounce f d) = d
   \<and> delay (env (exec es (install (debounce f d) (freshHost rule t0) s0))) = d
   \<and> (\<forall>t \<in> set (pending (host (exec es (install (debounce f d) (freshHost rule t0) s0)))).
        requested t = d)"
proof (intro conjI)
  show "delay (debounce f d) = d" by (simp add: debounce_def)
  show "delay (env (exec es (install (debounce f d) (freshHost rule t0) s0))) = d"
    by (simp add: exec_fixed install_fields)
  have "\<forall>t \<in> set (pending (host (install (debounce f d) (freshHost rule t0) s0))).
          requested t = delay (env (install (debounce f d) (freshHost rule t0) s0))"
    by (simp add: install_fields freshHost_def)
  from exec_requested[OF this, of es]
  show "\<forall>t \<in> set (pending (host (exec es (install (debounce f d) (freshHost rule t0) s0)))).
          requested t = d"
    by (simp add: install_fields)
qed

theorem delay_unchecked_and_fixed_witness:
  "delay (debounce (\<lambda>(a :: string) (s :: string list). (None :: unit option, s @ [a])) (- 5)) = - 5
   \<and> map requested (pending (host (exec [Call ''x'', Tick 7, Call ''y'']
        (install (debounce (\<lambda>(a :: string) (s :: string list). (None :: unit option, s @ [a])) (- 5))
         (freshHost (\<lambda>d. max 0 d) 0) []))))
     = [- 5]"
proof -
  let ?w = "exec [Call ''x'', Tick 7, Call ''y'']
        (install (debounce (\<lambda>(a :: string) (s :: string list). (None :: unit option, s @ [a])) (- 5))
         (freshHost (\<lambda>d. max 0 d) 0) [])"
  have p: "pending (host ?w) = [\<lparr>ident = 2, requested = - 5, due = 7, captured = ''y''\<rparr>]"
    by (simp add: exec_def wrapper_def setTimeout_def clearTimeout_def install_def
          debounce_def freshHost_def Let_def)
  from delay_unchecked_and_fixed[where f = "\<lambda>(a :: string) (s :: string list). (None :: unit option, s @ [a])"
      and ?s0.0 = "[]" and d = "- 5"
      and es = "[Call ''x'', Tick 7, Call ''y'']" and rule = "\<lambda>d. max 0 d" and ?t0.0 = 0]
  show ?thesis by (simp add: p)
qed

subsection \<open>Timed runs\<close>

lemma in_step_clock [simp]:
  "in_step (w\<lparr>host := (host w)\<lparr>clock := c\<rparr>\<rparr>) = in_step w"
  by (simp add: in_step_def)

lemma elapse_fields:
  "invoked (elapse again u w) = invoked w @ [(max (clock (host w)) (due u), captured u)]"
  "outside (elapse again u w) = snd (func (env w) (captured u) (outside w))"
  "uncaught (elapse again u w) =
     uncaught w @
     (case fst (func (env w) (captured u) (outside w)) of None \<Rightarrow> [] | Some e \<Rightarrow> [e])"
  "called (elapse again u w) =
     called w @ map (\<lambda>a. (max (clock (host w)) (due u), a)) (again (captured u) (outside w))"
  "clock (host (elapse again u w)) = max (clock (host w)) (due u)"
  "hostDelay (host (elapse again u w)) = hostDelay (host w)"
  "delay (env (elapse again u w)) = delay (env w)"
  "func (env (elapse again u w)) = func (env w)"
  by (simp_all add: elapse_def expire_invoked expire_outside expire_uncaught expire_called
        expire_fixed)

lemma elapse_alone:
  assumes "again (captured u) (outside w) = []"
  shows "pending (host (elapse again u w)) =
           filter (\<lambda>t. ident t \<noteq> ident u) (pending (host w))"
    and "nextHandle (host (elapse again u w)) = nextHandle (host w)"
    and "called (elapse again u w) = called w"
  using assms
  by (simp_all add: elapse_def expire_alone_pending expire_alone_nextHandle expire_called)


lemma advance_idle:
  assumes "\<forall>u \<in> set (pending (host w)). t < due u"
  shows "advance again t w = Some (w\<lparr>host := (host w)\<lparr>clock := max (clock (host w)) t\<rparr>\<rparr>)"
proof -
  have "filter (\<lambda>u. due u \<le> t) (pending (host w)) = []"
    using assms by (auto simp: filter_empty_conv)
  then show ?thesis by (subst advance.simps) simp
qed


lemma settle_empty: "pending (host w) = [] \<Longrightarrow> settle again w = Some w"
  by (subst settle.simps) simp

lemma settle_single:
  assumes "pending (host w) = [u]" "again (captured u) (outside w) = []"
  shows "settle again w = Some (elapse again u w)"
proof -
  have "settle again w = settle again (elapse again u w)"
    using assms(1) by (subst settle.simps) simp
  moreover have "pending (host (elapse again u w)) = []"
    using assms by (simp add: elapse_alone)
  ultimately show ?thesis by (simp add: settle_empty)
qed

lemma run_Nil: "run again [] w = settle again w"
  by (simp add: run_def)

lemma run_Cons:
  "advance again (fst c) w = Some v \<Longrightarrow> run again (c # cs) w = run again cs (wrapper (snd c) v)"
  by (simp add: run_def)

text \<open>
  A state in which the timer of a call made now, with arguments \<open>a\<close>, is the one pending.
\<close>

lemma armed_after_call:
  assumes "in_step v" "delay (env v) = d" "hostDelay (host v) d = d"
  shows "in_step (wrapper a v)"
    and "delay (env (wrapper a v)) = d"
    and "hostDelay (host (wrapper a v)) d = d"
    and "clock (host (wrapper a v)) = clock (host v)"
    and "invoked (wrapper a v) = invoked v"
    and "pending (host (wrapper a v)) =
          [\<lparr>ident = nextHandle (host v), requested = d, due = clock (host v) + d, captured = a\<rparr>]"
    and "func (env (wrapper a v)) = func (env v)"
    and "outside (wrapper a v) = outside v"
    and "uncaught (wrapper a v) = uncaught v"
    and "called (wrapper a v) = called v @ [(clock (host v), a)]"
  using assms
  by (simp_all add: in_step_wrapper wrapper_env wrapper_host_rest wrapper_logs
        in_step_wrapper_pending)

lemma first_call:
  assumes "in_step w" "delay (env w) = d" "hostDelay (host w) d = d"
    and "clock (host w) \<le> fst c" "\<forall>u \<in> set (pending (host w)). fst c < due u"
  shows "\<exists>v. advance again (fst c) w = Some v \<and>
          in_step (wrapper (snd c) v) \<and>
          delay (env (wrapper (snd c) v)) = d \<and>
          hostDelay (host (wrapper (snd c) v)) d = d \<and>
          func (env (wrapper (snd c) v)) = func (env w) \<and>
          clock (host (wrapper (snd c) v)) = fst c \<and>
          (\<exists>i. pending (host (wrapper (snd c) v)) =
             [\<lparr>ident = i, requested = d, due = fst c + d, captured = snd c\<rparr>]) \<and>
          invoked (wrapper (snd c) v) = invoked w \<and>
          outside (wrapper (snd c) v) = outside w \<and>
          uncaught (wrapper (snd c) v) = uncaught w \<and>
          called (wrapper (snd c) v) = called w @ [c]"
proof -
  let ?v = "w\<lparr>host := (host w)\<lparr>clock := fst c\<rparr>\<rparr>"
  have adv: "advance again (fst c) w = Some ?v"
    using assms(4,5) by (simp add: advance_idle max_def)
  have "in_step ?v" using assms(1) by (simp only: in_step_clock)
  moreover have "delay (env ?v) = d" "hostDelay (host ?v) d = d"
    using assms(2,3) by simp_all
  ultimately have pre: "in_step ?v" "delay (env ?v) = d" "hostDelay (host ?v) d = d"
    by blast+
  note a = armed_after_call[OF pre, of "snd c"]
  have "pending (host (wrapper (snd c) ?v)) =
      [\<lparr>ident = nextHandle (host ?v), requested = d, due = fst c + d, captured = snd c\<rparr>]"
    using a(6) by simp
  then have ex: "\<exists>i. pending (host (wrapper (snd c) ?v)) =
             [\<lparr>ident = i, requested = d, due = fst c + d, captured = snd c\<rparr>]"
    by blast
  have "called (wrapper (snd c) ?v) = called w @ [c]"
    using a(10) by simp
  then show ?thesis
    using adv a(1,2,3) ex a(4,5,7,8,9) by simp
qed

lemma burst_tail:
  assumes "in_step w" "delay (env w) = d" "hostDelay (host w) d = d" "0 \<le> d"
    and "func (env w) = f"
    and "pending (host w) = [u]" "due u = clock (host w) + d" "captured u = a"
    and "successively (\<lambda>c c'. fst c \<le> fst c' \<and> fst c' < fst c + d) ((clock (host w), a) # cs)"
    and "again (snd (last ((clock (host w), a) # cs))) (outside w) = []"
  shows "\<exists>w'. run again cs w = Some w' \<and>
     called w' = called w @ cs \<and>
     invoked w' =
       invoked w @ [(fst (last ((clock (host w), a) # cs)) + d,
                    snd (last ((clock (host w), a) # cs)))] \<and>
     outside w' = snd (f (snd (last ((clock (host w), a) # cs))) (outside w)) \<and>
     uncaught w' = uncaught w @
       (case fst (f (snd (last ((clock (host w), a) # cs))) (outside w)) of
          None \<Rightarrow> [] | Some e \<Rightarrow> [e])"
  using assms
proof (induction cs arbitrary: w u a)
  case Nil
  have ag: "again (captured u) (outside w) = []" using Nil.prems(8,10) by simp
  have "run again [] w = Some (elapse again u w)"
    using Nil.prems(6) ag by (simp add: run_Nil settle_single)
  then show ?case
    using Nil.prems(4,5,7,8) ag by (simp add: elapse_fields elapse_alone max_def)
next
  case (Cons c cs)
  from Cons.prems(9) have le: "clock (host w) \<le> fst c" and lt: "fst c < clock (host w) + d"
    and rest: "successively (\<lambda>c c'. fst c \<le> fst c' \<and> fst c' < fst c + d) (c # cs)"
    by simp_all
  have later: "\<forall>t \<in> set (pending (host w)). fst c < due t"
    using Cons.prems(6,7) lt by simp
  from first_call[OF Cons.prems(1,2,3) le later, of again]
  obtain v i where v: "advance again (fst c) w = Some v"
    and w1: "in_step (wrapper (snd c) v)" "delay (env (wrapper (snd c) v)) = d"
      "hostDelay (host (wrapper (snd c) v)) d = d" "func (env (wrapper (snd c) v)) = func (env w)"
      "clock (host (wrapper (snd c) v)) = fst c"
      "pending (host (wrapper (snd c) v)) =
         [\<lparr>ident = i, requested = d, due = fst c + d, captured = snd c\<rparr>]"
      "invoked (wrapper (snd c) v) = invoked w" "outside (wrapper (snd c) v) = outside w"
      "uncaught (wrapper (snd c) v) = uncaught w" "called (wrapper (snd c) v) = called w @ [c]"
    by blast
  let ?w' = "wrapper (snd c) v"
  let ?u' = "\<lparr>ident = i, requested = d, due = fst c + d, captured = snd c\<rparr>"
  have "\<exists>w'. run again cs ?w' = Some w' \<and>
     called w' = called ?w' @ cs \<and>
     invoked w' =
       invoked ?w' @ [(fst (last ((clock (host ?w'), snd c) # cs)) + d,
                    snd (last ((clock (host ?w'), snd c) # cs)))] \<and>
     outside w' = snd (f (snd (last ((clock (host ?w'), snd c) # cs))) (outside ?w')) \<and>
     uncaught w' = uncaught ?w' @
       (case fst (f (snd (last ((clock (host ?w'), snd c) # cs))) (outside ?w')) of
          None \<Rightarrow> [] | Some e \<Rightarrow> [e])"
  proof (rule Cons.IH[where u = ?u'])
    show "in_step ?w'" "delay (env ?w') = d" "hostDelay (host ?w') d = d" by fact+
    show "0 \<le> d" by fact
    show "func (env ?w') = f" using w1(4) Cons.prems(5) by simp
    show "pending (host ?w') = [?u']" by fact
    show "due ?u' = clock (host ?w') + d" by (simp add: w1(5))
    show "captured ?u' = snd c" by simp
    show "successively (\<lambda>c c'. fst c \<le> fst c' \<and> fst c' < fst c + d)
            ((clock (host ?w'), snd c) # cs)"
      using rest by (simp add: w1(5))
    show "again (snd (last ((clock (host ?w'), snd c) # cs))) (outside ?w') = []"
      using Cons.prems(10) by (simp add: w1(5,8))
  qed
  then show ?case
    by (simp add: run_Cons[OF v] w1(5,7,8,9,10))
qed

text \<open>
  C1, as amended. Let the host wait exactly \<open>delay\<close> (\<open>rule d = d\<close>, \<open>0 \<le> d\<close>), and let
  the limiter be in a state reached without any call made by the action. Let the wrapper
  be called \<open>N \<ge> 1\<close> times, the first call not before the present instant and before
  any pending timer is due, each later call not before and strictly less than \<open>delay\<close>
  after the one before it, and let the action, applied to the arguments of the last call,
  make no call of the wrapper.
  Then the timed run returns, the calls made in it are the \<open>N\<close> given ones, and the action
  \<open>f\<close> is applied exactly once: to the arguments of the last call, at the instant of the
  last call plus \<open>delay\<close>, on the state outside the limiter as it was before the first
  call; the host sees the error of that one application, if it throws.
\<close>

theorem burst_fires_once_with_last_args:
  assumes "w = exec es (install (debounce f d) (freshHost rule t0) s0)"
    and "\<forall>e \<in> set es. no_reentry e"
    and "again (snd (last cs)) (outside w) = []"
    and "cs \<noteq> []" and "0 \<le> d" and "rule d = d"
    and "clock (host w) \<le> fst (hd cs)"
    and "\<forall>u \<in> set (pending (host w)). fst (hd cs) < due u"
    and "successively (\<lambda>c c'. fst c \<le> fst c' \<and> fst c' < fst c + d) cs"
  shows "\<exists>w'. run again cs w = Some w' \<and>
           called w' = called w @ cs \<and>
           invoked w' = invoked w @ [(fst (last cs) + d, snd (last cs))] \<and>
           outside w' = snd (f (snd (last cs)) (outside w)) \<and>
           uncaught w' = uncaught w @
             (case fst (f (snd (last cs)) (outside w)) of None \<Rightarrow> [] | Some e \<Rightarrow> [e])"
proof -
  from assms(4) obtain c rest where cs: "cs = c # rest" by (cases cs) auto
  have inv: "in_step w"
    unfolding assms(1) using assms(2) by (intro in_step_exec in_step_install)
  have fx: "delay (env w) = d" "hostDelay (host w) d = d" "func (env w) = f"
    unfolding assms(1) using assms(6)
    by (simp_all add: exec_fixed install_fields freshHost_def)
  have le: "clock (host w) \<le> fst c" and later: "\<forall>u \<in> set (pending (host w)). fst c < due u"
    using assms(7,8) by (simp_all add: cs)
  from first_call[OF inv fx(1,2) le later, of again]
  obtain v i where v: "advance again (fst c) w = Some v"
    and w1: "in_step (wrapper (snd c) v)" "delay (env (wrapper (snd c) v)) = d"
      "hostDelay (host (wrapper (snd c) v)) d = d" "func (env (wrapper (snd c) v)) = func (env w)"
      "clock (host (wrapper (snd c) v)) = fst c"
      "pending (host (wrapper (snd c) v)) =
         [\<lparr>ident = i, requested = d, due = fst c + d, captured = snd c\<rparr>]"
      "invoked (wrapper (snd c) v) = invoked w" "outside (wrapper (snd c) v) = outside w"
      "uncaught (wrapper (snd c) v) = uncaught w" "called (wrapper (snd c) v) = called w @ [c]"
    by blast
  let ?w = "wrapper (snd c) v"
  let ?u = "\<lparr>ident = i, requested = d, due = fst c + d, captured = snd c\<rparr>"
  have "\<exists>w'. run again rest ?w = Some w' \<and>
     called w' = called ?w @ rest \<and>
     invoked w' =
       invoked ?w @ [(fst (last ((clock (host ?w), snd c) # rest)) + d,
                    snd (last ((clock (host ?w), snd c) # rest)))] \<and>
     outside w' = snd (f (snd (last ((clock (host ?w), snd c) # rest))) (outside ?w)) \<and>
     uncaught w' = uncaught ?w @
       (case fst (f (snd (last ((clock (host ?w), snd c) # rest))) (outside ?w)) of
          None \<Rightarrow> [] | Some e \<Rightarrow> [e])"
  proof (rule burst_tail[where u = ?u])
    show "in_step ?w" "delay (env ?w) = d" "hostDelay (host ?w) d = d" by fact+
    show "0 \<le> d" by fact
    show "func (env ?w) = f" using w1(4) fx(3) by simp
    show "pending (host ?w) = [?u]" by fact
    show "due ?u = clock (host ?w) + d" by (simp add: w1(5))
    show "captured ?u = snd c" by simp
    show "successively (\<lambda>c c'. fst c \<le> fst c' \<and> fst c' < fst c + d)
            ((clock (host ?w), snd c) # rest)"
      using assms(9) by (simp add: w1(5) cs)
    show "again (snd (last ((clock (host ?w), snd c) # rest))) (outside ?w) = []"
      using assms(3) by (simp add: w1(5,8) cs)
  qed
  then show ?thesis
    by (simp add: cs run_Cons[OF v] w1(5,7,8,9,10))
qed

theorem burst_fires_once_with_last_args_witness:
  "\<exists>w'. run (\<lambda>_ _. []) [(0, ''a''), (30, ''b''), (60, ''c'')]
           (install (debounce (\<lambda>(a :: string) (s :: string list). (None :: unit option, s @ [a])) 100)
              (freshHost (\<lambda>d. d) 0) []) = Some w'
        \<and> called w' = [(0, ''a''), (30, ''b''), (60, ''c'')]
        \<and> invoked w' = [(160, ''c'')] \<and> outside w' = [''c''] \<and> uncaught w' = []"
  using burst_fires_once_with_last_args[OF refl, where es = "[]"
      and cs = "[(0, ''a''), (30, ''b''), (60, ''c'')]" and again = "\<lambda>_ _. []"
      and d = 100 and rule = "\<lambda>d. d" and ?t0.0 = 0 and ?s0.0 = "[]"
      and f = "\<lambda>(a :: string) (s :: string list). (None :: unit option, s @ [a])"]
  by (simp add: exec_def install_fields freshHost_def)

text \<open>
  As first stated (every sequence of calls, each strictly within \<open>delay\<close> of the one
  before), C1 fails for a sequence that the action begins. The delay is 100. The wrapper
  is called with \<open>x\<close> at 0; the action, invoked with \<open>x\<close> at 100, calls the wrapper with
  \<open>r\<close>; the wrapper is called with \<open>y\<close> at 150. The calls at 100 and at 150 are less than
  \<open>delay\<close> apart, yet the action is invoked for both, at 200 and at 250: line 11 cleared
  the slot after the call with \<open>r\<close>, so the call with \<open>y\<close> cancelled nothing.
\<close>

theorem burst_begun_by_action_fires_twice:
  "map_option (\<lambda>w. (called w, invoked w, outside w))
     (run (\<lambda>a s. if a = ''x'' then [''r''] else []) [(0, ''x''), (150, ''y'')]
        (install (debounce (\<lambda>(a :: string) (s :: string list). (None :: unit option, s @ [a])) 100)
           (freshHost (\<lambda>d. d) 0) []))
   = Some ([(0, ''x''), (100, ''r''), (150, ''y'')],
           [(100, ''x''), (200, ''r''), (250, ''y'')],
           [''x'', ''r'', ''y''])"
  by (simp add: run_def advance.simps settle.simps elapse_def expire_def callback_def
        takeOff_def wrapper_def setTimeout_def clearTimeout_def install_def debounce_def
        freshHost_def Let_def)












subsection \<open>Every timed run that returns is a run\<close>

text \<open>
  A timed run that returns is one of the runs of the sections before: the events it is
  made of are the calls from outside, each timer run by the host at its instant together
  with the calls the action then makes, and the time passing in between.
\<close>

lemma earliest_in: "earliest ts = Some u \<Longrightarrow> u \<in> set ts"
  by (induction ts arbitrary: u) (auto split: option.splits if_splits)

lemma tick_to:
  "step (Tick (nat (max (clock (host w)) t - clock (host w)))) w =
     w\<lparr>host := (host w)\<lparr>clock := max (clock (host w)) t\<rparr>\<rparr>"
  by (simp add: max_def)

lemma handed_out_clock [simp]:
  "handed_out (w\<lparr>host := (host w)\<lparr>clock := c\<rparr>\<rparr>) = handed_out w"
  by (simp add: handed_out_def)

lemma elapse_as_events:
  assumes "handed_out w" "u \<in> set (pending (host w))"
  shows "elapse again u w =
     exec [Tick (nat (max (clock (host w)) (due u) - clock (host w))),
           Expire (ident u) (again (captured u) (outside w))] w"
proof -
  let ?v = "w\<lparr>host := (host w)\<lparr>clock := max (clock (host w)) (due u)\<rparr>\<rparr>"
  have "handed_out ?v" using assms(1) by (simp only: handed_out_clock)
  moreover have "u \<in> set (pending (host ?v))" using assms(2) by simp
  ultimately have "step (Expire (ident u) (again (captured u) (outside w))) ?v =
      expire u (again (captured u) (outside w)) ?v"
    by (rule expire_present)
  then have a: "elapse again u w = step (Expire (ident u) (again (captured u) (outside w))) ?v"
    by (simp only: elapse_def)
  have "exec [Tick (nat (max (clock (host w)) (due u) - clock (host w))),
           Expire (ident u) (again (captured u) (outside w))] w =
      step (Expire (ident u) (again (captured u) (outside w)))
        (step (Tick (nat (max (clock (host w)) (due u) - clock (host w)))) w)"
    by (simp only: exec_def fold_simps id_apply comp_apply)
  then show ?thesis by (simp only: tick_to a)
qed

lemma advance_as_events:
  assumes "advance again t w = Some w'"
  shows "handed_out w \<longrightarrow> (\<exists>es. w' = exec es w)"
proof (rule advance.raw_induct[where P = "\<lambda>again t w w'. handed_out w \<longrightarrow> (\<exists>es. w' = exec es w)",
      OF _ assms], goal_cases)
  case (1 advance again t w w')
  show ?case
  proof (cases "earliest (filter (\<lambda>u. due u \<le> t) (pending (host w)))")
    case None
    with 1(2) have "w' = w\<lparr>host := (host w)\<lparr>clock := max (clock (host w)) t\<rparr>\<rparr>" by simp
    then have "w' = exec [Tick (nat (max (clock (host w)) t - clock (host w)))] w"
      by (simp add: exec_def max_def)
    then show ?thesis by blast
  next
    case (Some u)
    show ?thesis
    proof
      assume h: "handed_out w"
      from Some have u: "u \<in> set (pending (host w))"
        using earliest_in by fastforce
      note e = elapse_as_events[OF h u, of again]
      have "handed_out (elapse again u w)"
        unfolding e using h by (rule handed_out_exec)
      moreover from Some 1(2) have "advance again t (elapse again u w) = Some w'" by simp
      ultimately obtain es where "w' = exec es (elapse again u w)"
        using 1(1) by blast
      then have "w' = exec ([Tick (nat (max (clock (host w)) (due u) - clock (host w))),
           Expire (ident u) (again (captured u) (outside w))] @ es) w"
        unfolding e by (simp only: exec_append)
      then show "\<exists>es. w' = exec es w" by blast
    qed
  qed
qed

lemma settle_as_events:
  assumes "settle again w = Some w'"
  shows "handed_out w \<longrightarrow> (\<exists>es. w' = exec es w)"
proof (rule settle.raw_induct[where P = "\<lambda>again w w'. handed_out w \<longrightarrow> (\<exists>es. w' = exec es w)",
      OF _ assms], goal_cases)
  case (1 settle again w w')
  show ?case
  proof (cases "earliest (pending (host w))")
    case None
    with 1(2) have "w' = exec [] w" by (simp add: exec_def)
    then show ?thesis by blast
  next
    case (Some u)
    show ?thesis
    proof
      assume h: "handed_out w"
      from Some have u: "u \<in> set (pending (host w))" by (rule earliest_in)
      note e = elapse_as_events[OF h u, of again]
      have "handed_out (elapse again u w)"
        unfolding e using h by (rule handed_out_exec)
      moreover from Some 1(2) have "settle again (elapse again u w) = Some w'" by simp
      ultimately obtain es where "w' = exec es (elapse again u w)"
        using 1(1) by blast
      then have "w' = exec ([Tick (nat (max (clock (host w)) (due u) - clock (host w))),
           Expire (ident u) (again (captured u) (outside w))] @ es) w"
        unfolding e by (simp only: exec_append)
      then show "\<exists>es. w' = exec es w" by blast
    qed
  qed
qed

lemma callsAt_as_events:
  "callsAt again cs w = Some w' \<Longrightarrow> handed_out w \<Longrightarrow> \<exists>es. w' = exec es w"
proof (induction cs arbitrary: w)
  case Nil
  then have "w' = exec [] w" by (simp add: exec_def)
  then show ?case by blast
next
  case (Cons c cs)
  from Cons.prems(1) obtain v where v: "advance again (fst c) w = Some v"
    and r: "callsAt again cs (wrapper (snd c) v) = Some w'"
    by (auto split: option.splits)
  from advance_as_events[OF v] Cons.prems(2) obtain es where es: "v = exec es w" by blast
  have one: "wrapper (snd c) v = exec (es @ [Call (snd c)]) w"
    by (simp add: es exec_snoc)
  then have "handed_out (wrapper (snd c) v)"
    using Cons.prems(2) by (simp only: handed_out_exec)
  from Cons.IH[OF r this] obtain es' where "w' = exec es' (wrapper (snd c) v)" by blast
  then have "w' = exec ((es @ [Call (snd c)]) @ es') w"
    unfolding one by (simp only: exec_append)
  then show ?case by blast
qed

lemma timed_run_is_a_run:
  assumes "run again cs w = Some w'" "handed_out w"
  shows "\<exists>es. w' = exec es w"
proof -
  from assms(1) obtain v where v: "callsAt again cs w = Some v" and s: "settle again v = Some w'"
    by (auto simp: run_def split: option.splits)
  from callsAt_as_events[OF v assms(2)] obtain es where es: "v = exec es w" by blast
  then have "handed_out v" using assms(2) by (simp only: handed_out_exec)
  with settle_as_events[OF s] obtain es' where "w' = exec es' v" by blast
  then have "w' = exec (es @ es') w" unfolding es by (simp only: exec_append)
  then show ?thesis by blast
qed

section \<open>Properties of the string exercises\<close>

lemma firstDupElem_from_distinct:
  "distinct inputStr \<Longrightarrow> keymaps = set (take i inputStr) \<Longrightarrow>
   firstDupElem_from inputStr i keymaps = - 1"
proof (induction inputStr i keymaps rule: firstDupElem_from.induct)
  case (1 inputStr i keymaps)
  show ?case
  proof (cases "i < length inputStr")
    case False
    then show ?thesis by (simp add: firstDupElem_from.simps)
  next
    case True
    have fresh: "inputStr ! i \<notin> keymaps"
    proof
      assume "inputStr ! i \<in> keymaps"
      then obtain j where "j < i" "inputStr ! j = inputStr ! i"
        using True "1.prems"(2) by (auto simp: in_set_conv_nth)
      then show False
        using "1.prems"(1) True by (auto simp: distinct_conv_nth)
    qed
    have "insert (inputStr ! i) keymaps = set (take (Suc i) inputStr)"
      using True "1.prems"(2) by (simp add: take_Suc_conv_app_nth)
    then have "firstDupElem_from inputStr (Suc i) (insert (inputStr ! i) keymaps) = - 1"
      using "1.IH" True fresh "1.prems"(1) by blast
    then show ?thesis
      using True fresh by (simp add: firstDupElem_from.simps)
  qed
qed

lemma firstDupElem_from_repeat:
  "\<not> distinct inputStr \<Longrightarrow> keymaps = set (take i inputStr) \<Longrightarrow> distinct (take i inputStr) \<Longrightarrow>
   \<exists>k. firstDupElem_from inputStr i keymaps = int k \<and> repeats_at inputStr k \<and>
       distinct (take k inputStr)"
proof (induction inputStr i keymaps rule: firstDupElem_from.induct)
  case (1 inputStr i keymaps)
  show ?case
  proof (cases "i < length inputStr")
    case False
    then have "take i inputStr = inputStr" by simp
    then show ?thesis using "1.prems" by simp
  next
    case True
    show ?thesis
    proof (cases "inputStr ! i \<in> keymaps")
      case True
      then obtain j where "j < i" "inputStr ! j = inputStr ! i"
        using \<open>i < length inputStr\<close> "1.prems"(2) by (auto simp: in_set_conv_nth)
      then have "repeats_at inputStr i"
        using \<open>i < length inputStr\<close> by (auto simp: repeats_at_def)
      then show ?thesis
        using True \<open>i < length inputStr\<close> "1.prems"(3)
        by (auto simp: firstDupElem_from.simps)
    next
      case False
      have k: "insert (inputStr ! i) keymaps = set (take (Suc i) inputStr)"
        using True "1.prems"(2) by (simp add: take_Suc_conv_app_nth)
      have d: "distinct (take (Suc i) inputStr)"
        using True False "1.prems"(2,3) by (simp add: take_Suc_conv_app_nth)
      from "1.IH"[OF True False "1.prems"(1) k d]
      show ?thesis using True False by (simp add: firstDupElem_from.simps)
    qed
  qed
qed

lemma repeats_at_least:
  assumes "repeats_at s k" "distinct (take k s)"
  shows "(LEAST i. repeats_at s i) = k"
proof (rule Least_equality)
  show "repeats_at s k" by fact
next
  fix y assume y: "repeats_at s y"
  show "k \<le> y"
  proof (rule ccontr)
    assume "\<not> k \<le> y"
    then have "y < k" by simp
    from y obtain j where j: "j < y" "s ! j = s ! y" "y < length s"
      by (auto simp: repeats_at_def)
    have "k < length s" using assms(1) by (simp add: repeats_at_def)
    then have "take k s ! j = take k s ! y" "j < length (take k s)" "y < length (take k s)"
      using j \<open>y < k\<close> by simp_all
    then show False using assms(2) j(1) by (auto simp: distinct_conv_nth)
  qed
qed

text \<open>
  C9. When some code unit of \<open>s\<close> occurs twice, \<^verbatim>\<open>firstDupElem(s)\<close> is the least index
  \<open>i\<close> such that \<open>s[i] = s[j]\<close> for some \<open>j < i\<close>; when none does, it is \<open>-1\<close>.
\<close>

theorem firstDupElem_spec:
  "(\<not> distinct s \<longrightarrow> firstDupElem s = int (LEAST i. i < length s \<and> (\<exists>j<i. s ! j = s ! i)))
   \<and> (distinct s \<longrightarrow> firstDupElem s = - 1)"
proof (intro conjI impI)
  assume "\<not> distinct s"
  then obtain k where k: "firstDupElem s = int k" "repeats_at s k" "distinct (take k s)"
    using firstDupElem_from_repeat[of s "{}" 0] by (auto simp: firstDupElem_def)
  then have "(LEAST i. repeats_at s i) = k" by (simp add: repeats_at_least)
  then show "firstDupElem s = int (LEAST i. i < length s \<and> (\<exists>j<i. s ! j = s ! i))"
    using k(1) by (simp add: repeats_at_def)
next
  assume "distinct s"
  then show "firstDupElem s = - 1"
    using firstDupElem_from_distinct[of s "{}" 0] by (simp add: firstDupElem_def)
qed

theorem firstDupElem_spec_witness:
  "(LEAST i. i < length [0x61, 0x62, 0x63, 0x61, 0x65, 0x64, 0x66 :: 16 word] \<and>
       (\<exists>j<i. [0x61, 0x62, 0x63, 0x61, 0x65, 0x64, 0x66 :: 16 word] ! j
              = [0x61, 0x62, 0x63, 0x61, 0x65, 0x64, 0x66] ! i)) = 3
   \<and> firstDupElem [0x61, 0x62, 0x63, 0x64, 0x65, 0x66, 0x67] = - 1"
proof -
  have dup: "\<not> distinct [0x61, 0x62, 0x63, 0x61, 0x65, 0x64, 0x66 :: 16 word]" by simp
  have nodup: "distinct [0x61, 0x62, 0x63, 0x64, 0x65, 0x66, 0x67 :: 16 word]" by simp
  have val: "firstDupElem [0x61, 0x62, 0x63, 0x61, 0x65, 0x64, 0x66] = 3" by code_simp
  from firstDupElem_spec[of "[0x61, 0x62, 0x63, 0x61, 0x65, 0x64, 0x66]"] dup val
  have "int (LEAST i. i < length [0x61, 0x62, 0x63, 0x61, 0x65, 0x64, 0x66 :: 16 word] \<and>
       (\<exists>j<i. [0x61, 0x62, 0x63, 0x61, 0x65, 0x64, 0x66 :: 16 word] ! j
              = [0x61, 0x62, 0x63, 0x61, 0x65, 0x64, 0x66] ! i)) = 3"
    by presburger
  moreover from firstDupElem_spec[of "[0x61, 0x62, 0x63, 0x64, 0x65, 0x66, 0x67]"] nodup
  have "firstDupElem [0x61, 0x62, 0x63, 0x64, 0x65, 0x66, 0x67] = - 1" by blast
  ultimately show ?thesis by simp
qed

lemma firstDupElem_minus_one_iff: "firstDupElem s = - 1 \<longleftrightarrow> distinct s"
proof
  assume m: "firstDupElem s = - 1"
  show "distinct s"
  proof (rule ccontr)
    assume "\<not> distinct s"
    then obtain k where "firstDupElem s = int k"
      using firstDupElem_from_repeat[of s "{}" 0] by (auto simp: firstDupElem_def)
    with m show False by simp
  qed
next
  assume "distinct s"
  then show "firstDupElem s = - 1"
    using firstDupElem_from_distinct[of s "{}" 0] by (simp add: firstDupElem_def)
qed

lemma uniqChars_loop_iff:
  "uniqChars_loop xs uniq \<longleftrightarrow> distinct xs \<and> set xs \<inter> dom uniq = {}"
proof (induction xs arbitrary: uniq)
  case Nil
  then show ?case by simp
next
  case (Cons s rest)
  show ?case
  proof (cases "uniq s")
    case None
    then have fresh: "s \<notin> dom uniq" by (simp add: domIff)
    have "uniqChars_loop (s # rest) uniq = uniqChars_loop rest (uniq(s \<mapsto> 1))"
      using None by simp
    also have "\<dots> \<longleftrightarrow> distinct rest \<and> set rest \<inter> insert s (dom uniq) = {}"
      using Cons.IH[of "uniq(s \<mapsto> 1)"] by (simp only: dom_fun_upd option.simps if_False)
    also have "\<dots> \<longleftrightarrow> distinct (s # rest) \<and> set (s # rest) \<inter> dom uniq = {}"
      using fresh by auto
    finally show ?thesis .
  next
    case (Some n)
    then have "s \<in> dom uniq" by (simp add: domIff)
    moreover have "\<not> uniqChars_loop (s # rest) uniq" using Some by simp
    ultimately show ?thesis by auto
  qed
qed

lemma uniqChars_iff: "uniqChars str \<longleftrightarrow> distinct (stringIterator str)"
  by (simp add: uniqChars_def uniqChars_loop_iff)

lemma concat_stringIterator: "concat (stringIterator s) = s"
  by (induction s rule: stringIterator.induct) auto

lemma stringIterator_nonempty: "[] \<notin> set (stringIterator s)"
  by (induction s rule: stringIterator.induct) auto

lemma distinct_stringIterator: "distinct s \<Longrightarrow> distinct (stringIterator s)"
proof -
  assume "distinct s"
  then have "distinct (concat (stringIterator s))" by (simp add: concat_stringIterator)
  then have "distinct (removeAll [] (stringIterator s))" by (simp add: distinct_concat_iff)
  then show ?thesis using stringIterator_nonempty[of s] by simp
qed

lemma stringIterator_units:
  "noSurrogatePair s \<Longrightarrow> stringIterator s = map (\<lambda>c. [c]) s"
proof (induction s rule: stringIterator.induct)
  case 1
  then show ?case by simp
next
  case (2 c)
  then show ?case by simp
next
  case (3 c d cs)
  from "3.prems" have here: "\<not> (isLeadSurrogate c \<and> isTrailSurrogate d)"
    unfolding noSurrogatePair_def by (metis length_Cons nth_Cons_0 nth_Cons_Suc zero_less_Suc Suc_less_eq)
  have "noSurrogatePair (d # cs)"
    unfolding noSurrogatePair_def
  proof (intro allI impI)
    fix i assume "Suc i < length (d # cs)"
    then have "Suc (Suc i) < length (c # d # cs)" by simp
    with "3.prems" have "\<not> (isLeadSurrogate ((c # d # cs) ! Suc i) \<and> isTrailSurrogate ((c # d # cs) ! Suc (Suc i)))"
      unfolding noSurrogatePair_def by blast
    then show "\<not> (isLeadSurrogate ((d # cs) ! i) \<and> isTrailSurrogate ((d # cs) ! Suc i))" by simp
  qed
  with "3.IH"(2) here have "stringIterator (d # cs) = map (\<lambda>c. [c]) (d # cs)" by blast
  with here show ?case by auto
qed

text \<open>
  C10, as amended. \<^verbatim>\<open>uniqChars(s)\<close> is false exactly when some code point of \<open>s\<close>, as
  \<^verbatim>\<open>for...of\<close> iterates them, occurs twice; \<^verbatim>\<open>firstDupElem(s) = -1\<close> implies
  \<^verbatim>\<open>uniqChars(s)\<close>; and the two agree on every string in which no lead surrogate is
  directly followed by a trail surrogate.
\<close>

theorem uniqChars_firstDupElem_agree:
  "(uniqChars s \<longleftrightarrow> distinct (stringIterator s))
   \<and> (firstDupElem s = - 1 \<longrightarrow> uniqChars s)
   \<and> ((\<forall>i. Suc i < length s \<longrightarrow> \<not> (isLeadSurrogate (s ! i) \<and> isTrailSurrogate (s ! Suc i)))
        \<longrightarrow> (uniqChars s \<longleftrightarrow> firstDupElem s = - 1))"
proof (intro conjI impI)
  show "uniqChars s \<longleftrightarrow> distinct (stringIterator s)" by (rule uniqChars_iff)
next
  assume "firstDupElem s = - 1"
  then show "uniqChars s"
    by (simp add: firstDupElem_minus_one_iff uniqChars_iff distinct_stringIterator)
next
  assume "\<forall>i. Suc i < length s \<longrightarrow> \<not> (isLeadSurrogate (s ! i) \<and> isTrailSurrogate (s ! Suc i))"
  then have "stringIterator s = map (\<lambda>c. [c]) s"
    by (simp add: stringIterator_units noSurrogatePair_def)
  then have "distinct (stringIterator s) \<longleftrightarrow> distinct s"
    by (simp add: distinct_map inj_on_def)
  then show "uniqChars s \<longleftrightarrow> firstDupElem s = - 1"
    by (simp add: firstDupElem_minus_one_iff uniqChars_iff)
qed

theorem uniqChars_firstDupElem_agree_witness:
  "uniqChars [0x61, 0x62, 0x63, 0x64, 0x65, 0x66, 0x67]
   \<and> \<not> uniqChars [0x68, 0x65, 0x6C, 0x6C, 0x6F]"
proof -
  have none: "firstDupElem [0x61, 0x62, 0x63, 0x64, 0x65, 0x66, 0x67] = - 1" by code_simp
  have some: "firstDupElem [0x68, 0x65, 0x6C, 0x6C, 0x6F] = 3" by code_simp
  have "\<forall>c \<in> set [0x68, 0x65, 0x6C, 0x6C, 0x6F :: 16 word]. \<not> isLeadSurrogate c"
    by (simp add: isLeadSurrogate_def)
  then have plain: "\<forall>i. Suc i < length [0x68, 0x65, 0x6C, 0x6C, 0x6F :: 16 word] \<longrightarrow>
      \<not> (isLeadSurrogate ([0x68, 0x65, 0x6C, 0x6C, 0x6F] ! i)
         \<and> isTrailSurrogate ([0x68, 0x65, 0x6C, 0x6C, 0x6F] ! Suc i))"
    by (metis Suc_lessD nth_mem)
  from uniqChars_firstDupElem_agree[of "[0x61, 0x62, 0x63, 0x64, 0x65, 0x66, 0x67]"] none
  have "uniqChars [0x61, 0x62, 0x63, 0x64, 0x65, 0x66, 0x67]" by blast
  moreover from uniqChars_firstDupElem_agree[of "[0x68, 0x65, 0x6C, 0x6C, 0x6F]"] plain
  have "uniqChars [0x68, 0x65, 0x6C, 0x6C, 0x6F]
      \<longleftrightarrow> firstDupElem [0x68, 0x65, 0x6C, 0x6C, 0x6F] = - 1"
    by blast
  then have "\<not> uniqChars [0x68, 0x65, 0x6C, 0x6C, 0x6F]"
    by (simp add: some)
  ultimately show ?thesis by simp
qed

text \<open>
  As first stated (the two detectors agree on every string), C10 fails: two different
  emoji share their lead surrogate, so the code units repeat while the code points do not.
\<close>

theorem uniqChars_firstDupElem_disagree:
  "uniqChars [0xD83D, 0xDE00, 0xD83D, 0xDE01]
   \<and> firstDupElem [0xD83D, 0xDE00, 0xD83D, 0xDE01] = 2
   \<and> \<not> (uniqChars [0xD83D, 0xDE00, 0xD83D, 0xDE01]
          \<longleftrightarrow> firstDupElem [0xD83D, 0xDE00, 0xD83D, 0xDE01] = - 1)"
  by code_simp

end
